theory Spec2Isabelle
  imports Complex_Main
begin

section \<open>JavaScript values used by index.js\<close>

text \<open>
  Numbers. \<^verbatim>\<open>Date.now()\<close> is a whole number of milliseconds (\<open>int\<close>). A cooldown is
  computed with \<^verbatim>\<open>parseFloat\<close> and can be fractional or \<^verbatim>\<open>NaN\<close>, so the numbers stored in
  \<^verbatim>\<open>blockedUntil\<close> are exact rationals extended with \<open>NaN\<close>. The rounding of IEEE doubles
  and the infinities are not part of this model.
\<close>

datatype jsnum = Num rat | NaN

fun js_add :: "jsnum \<Rightarrow> jsnum \<Rightarrow> jsnum" where
  "js_add (Num a) (Num b) = Num (a + b)"
| "js_add _ _ = NaN"

fun js_sub :: "jsnum \<Rightarrow> jsnum \<Rightarrow> jsnum" where
  "js_sub (Num a) (Num b) = Num (a - b)"
| "js_sub _ _ = NaN"

fun js_mul :: "jsnum \<Rightarrow> jsnum \<Rightarrow> jsnum" where
  "js_mul (Num a) (Num b) = Num (a * b)"
| "js_mul _ _ = NaN"

text \<open>Comparisons with \<open>NaN\<close> are false, as in JavaScript.\<close>

fun js_le :: "jsnum \<Rightarrow> jsnum \<Rightarrow> bool" where
  "js_le (Num a) (Num b) = (a \<le> b)"
| "js_le _ _ = False"

fun js_lt :: "jsnum \<Rightarrow> jsnum \<Rightarrow> bool" where
  "js_lt (Num a) (Num b) = (a < b)"
| "js_lt _ _ = False"

definition num_of_int :: "int \<Rightarrow> jsnum" where
  "num_of_int i = Num (of_int i)"

text \<open>
  A thrown \<^verbatim>\<open>Error\<close>: its \<^verbatim>\<open>status\<close> property (absent on errors that the program
  itself creates and on a \<^verbatim>\<open>TypeError\<close>) and its \<^verbatim>\<open>message\<close>.
\<close>

datatype js_error = JsError (status: "int option") (message: string)

definition type_error :: js_error where
  "type_error = JsError None ''TypeError''"

section \<open>APIKeyManager (index.js 101-159)\<close>

record key_state =
  blockedUntil :: jsnum
  failCount :: nat

text \<open>
  \<^verbatim>\<open>this.keys\<close> is an array of strings, \<^verbatim>\<open>this.state\<close> a \<^verbatim>\<open>Map\<close> from the key string
  to its state, \<^verbatim>\<open>this.idx\<close> the rotation cursor.
\<close>

record pool =
  keys :: "string list"
  state :: "string \<rightharpoonup> key_state"
  idx :: nat

text \<open>The test of line 125, for the credential \<open>k\<close> at the time \<open>now\<close>.\<close>

definition eligible :: "int \<Rightarrow> pool \<Rightarrow> string \<Rightarrow> bool" where
  "eligible now p k =
     (case state p k of
        None \<Rightarrow> False
      | Some s \<Rightarrow> js_le (blockedUntil s) (num_of_int now) \<and> failCount s < 3)"

text \<open>
  The first loop of \<^verbatim>\<open>pick\<close> (lines 122-129), from the offset \<open>i\<close> on. \<open>Inr None\<close>: the loop
  ended without returning. Reading \<^verbatim>\<open>state.blockedUntil\<close> of a key with no state throws.
\<close>

function pick_scan :: "int \<Rightarrow> pool \<Rightarrow> nat \<Rightarrow> js_error + (string \<times> pool) option" where
  "pick_scan now p i =
     (if i < length (keys p) then
        (let j = (idx p + i) mod length (keys p) in
         case state p (keys p ! j) of
           None \<Rightarrow> Inl type_error
         | Some s \<Rightarrow>
             if js_le (blockedUntil s) (num_of_int now) \<and> failCount s < 3
             then Inr (Some (keys p ! j, p\<lparr>idx := (j + 1) mod length (keys p)\<rparr>))
             else pick_scan now p (Suc i))
      else Inr None)"
  by pat_completeness auto
termination
  by (relation "measure (\<lambda>(now, p, i). length (keys p) - i)") auto

declare pick_scan.simps [simp del]

text \<open>The second loop (lines 131-138): \<open>best\<close> is replaced by a strictly smaller key only.\<close>

fun pick_best :: "(string \<rightharpoonup> key_state) \<Rightarrow> string \<Rightarrow> string list \<Rightarrow> js_error + string" where
  "pick_best st best [] = Inr best"
| "pick_best st best (k # ks) =
     (case st best of
        None \<Rightarrow> Inl type_error
      | Some bestState \<Rightarrow>
          (case st k of
             None \<Rightarrow> Inl type_error
           | Some kState \<Rightarrow>
               if js_lt (blockedUntil kState) (blockedUntil bestState)
               then pick_best st k ks
               else pick_best st best ks))"

text \<open>
  \<^verbatim>\<open>pick()\<close> at the time \<open>now\<close>: the key returned (\<open>None\<close> is \<^verbatim>\<open>undefined\<close>, which
  \<^verbatim>\<open>this.keys[0]\<close> is for an empty array) and the pool after the call.
\<close>

definition pick :: "int \<Rightarrow> pool \<Rightarrow> js_error + (string option \<times> pool)" where
  "pick now p =
     (case pick_scan now p 0 of
        Inl e \<Rightarrow> Inl e
      | Inr (Some (k, p')) \<Rightarrow> Inr (Some k, p')
      | Inr None \<Rightarrow>
          (case keys p of
             [] \<Rightarrow> Inr (None, p)
           | k0 # _ \<Rightarrow>
               (case pick_best (state p) k0 (keys p) of
                  Inl e \<Rightarrow> Inl e
                | Inr best \<Rightarrow> Inr (Some best, p))))"

text \<open>\<^verbatim>\<open>block(key, ms)\<close> at the time \<open>now\<close> (lines 142-149).\<close>

definition block :: "int \<Rightarrow> string \<Rightarrow> jsnum \<Rightarrow> pool \<Rightarrow> pool" where
  "block now k ms p =
     (case state p k of
        None \<Rightarrow> p
      | Some s \<Rightarrow>
          p\<lparr>state := (state p)(k \<mapsto>
             s\<lparr>blockedUntil := js_add (num_of_int now) ms, failCount := failCount s + 1\<rparr>)\<rparr>)"

definition resetFailures :: "string \<Rightarrow> pool \<Rightarrow> pool" where
  "resetFailures k p =
     (case state p k of
        None \<Rightarrow> p
      | Some s \<Rightarrow> p\<lparr>state := (state p)(k \<mapsto> s\<lparr>failCount := 0\<rparr>)\<rparr>)"

text \<open>\<^verbatim>\<open>Math.max(0, x)\<close> is \<open>NaN\<close> when \<open>x\<close> is.\<close>

fun js_max0 :: "jsnum \<Rightarrow> jsnum" where
  "js_max0 (Num a) = Num (max 0 a)"
| "js_max0 NaN = NaN"

definition waitTime :: "int \<Rightarrow> string \<Rightarrow> pool \<Rightarrow> jsnum" where
  "waitTime now k p =
     js_max0 (js_sub (case state p k of None \<Rightarrow> Num 0 | Some s \<Rightarrow> blockedUntil s)
                     (num_of_int now))"

text \<open>
  What the constructor (lines 102-117) establishes and every method keeps: at least one
  key, a state for every key, the cursor inside the array.
\<close>

definition pool_ok :: "pool \<Rightarrow> bool" where
  "pool_ok p = (keys p \<noteq> [] \<and> list_all (\<lambda>k. state p k \<noteq> None) (keys p) \<and> idx p < length (keys p))"

text \<open>The key at the offset \<open>i\<close> from the cursor.\<close>

definition at_offset :: "pool \<Rightarrow> nat \<Rightarrow> string" where
  "at_offset p i = keys p ! ((idx p + i) mod length (keys p))"

text \<open>The \<^verbatim>\<open>blockedUntil\<close> of a key that has a state.\<close>

definition bu :: "pool \<Rightarrow> string \<Rightarrow> jsnum" where
  "bu p k = (case state p k of None \<Rightarrow> NaN | Some s \<Rightarrow> blockedUntil s)"

section \<open>MemoryCache (index.js 161-213)\<close>

text \<open>
  A user is identified by the number Telegram gives (\<^verbatim>\<open>ctx.from.id\<close>); the cache and the
  fact store key it by \<^verbatim>\<open>String(uid)\<close>, which is one-to-one on these numbers, so the
  model keys both by the number. An entry holds the \<^verbatim>\<open>Map\<close> of the user's facts and the
  time \<^verbatim>\<open>ts\<close> it was last written.
\<close>

type_synonym uid = int

record cache_entry =
  emap :: "string \<rightharpoonup> string"
  ts :: int

type_synonym cache_store = "uid \<rightharpoonup> cache_entry"

definition CACHE_TTL :: int where
  "CACHE_TTL = 5 * 60 * 1000"

text \<open>\<^verbatim>\<open>_entry(uid)\<close> at the time \<open>now\<close>: an expired entry is deleted and reported absent.\<close>

definition entry :: "int \<Rightarrow> uid \<Rightarrow> cache_store \<Rightarrow> cache_entry option \<times> cache_store" where
  "entry now u c =
     (case c u of
        None \<Rightarrow> (None, c)
      | Some e \<Rightarrow> if now - ts e > CACHE_TTL then (None, c(u := None)) else (Some e, c))"

definition getAll :: "int \<Rightarrow> uid \<Rightarrow> cache_store \<Rightarrow> (string \<rightharpoonup> string) option \<times> cache_store" where
  "getAll now u c = (case entry now u c of (e, c') \<Rightarrow> (map_option emap e, c'))"

text \<open>\<^verbatim>\<open>get(uid, key)\<close>: \<open>None\<close> is \<^verbatim>\<open>null\<close>.\<close>

definition get :: "int \<Rightarrow> uid \<Rightarrow> string \<Rightarrow> cache_store \<Rightarrow> string option \<times> cache_store" where
  "get now u k c =
     (case entry now u c of
        (None, c') \<Rightarrow> (None, c')
      | (Some e, c') \<Rightarrow> (emap e k, c'))"

text \<open>A row of the \<^verbatim>\<open>memories\<close> table (convex/schema.ts).\<close>

record memory =
  userId :: uid
  key :: string
  "value" :: string

definition setAll :: "int \<Rightarrow> uid \<Rightarrow> memory list \<Rightarrow> cache_store \<Rightarrow> cache_store" where
  "setAll now u arr c =
     c(u \<mapsto> \<lparr>emap = fold (\<lambda>m mp. mp(key m \<mapsto> value m)) arr Map.empty, ts = now\<rparr>)"

definition upsert :: "int \<Rightarrow> uid \<Rightarrow> string \<Rightarrow> string \<Rightarrow> cache_store \<Rightarrow> cache_store" where
  "upsert now u k v c =
     (case entry now u c of
        (None, c') \<Rightarrow> c'
      | (Some e, c') \<Rightarrow> c'(u \<mapsto> e\<lparr>emap := (emap e)(k \<mapsto> v), ts := now\<rparr>))"

definition remove :: "int \<Rightarrow> uid \<Rightarrow> string \<Rightarrow> cache_store \<Rightarrow> cache_store" where
  "remove now u k c =
     (case entry now u c of
        (None, c') \<Rightarrow> c'
      | (Some e, c') \<Rightarrow> c'(u \<mapsto> e\<lparr>emap := (emap e)(k := None)\<rparr>))"

text \<open>
  \<^verbatim>\<open>isDuplicate(uid, key, value)\<close> for a string \<open>v\<close>: \<^verbatim>\<open>===\<close> against \<^verbatim>\<open>undefined\<close> (no
  entry, or no such key) is false.
\<close>

definition isDuplicate :: "int \<Rightarrow> uid \<Rightarrow> string \<Rightarrow> string \<Rightarrow> cache_store \<Rightarrow> bool \<times> cache_store" where
  "isDuplicate now u k v c =
     (case entry now u c of
        (None, c') \<Rightarrow> (False, c')
      | (Some e, c') \<Rightarrow> (emap e k = Some v, c'))"

definition invalidate :: "uid \<Rightarrow> cache_store \<Rightarrow> cache_store" where
  "invalidate u c = c(u := None)"

text \<open>The entry of \<open>u\<close> is present and not expired at the time \<open>now\<close>.\<close>

definition fresh :: "int \<Rightarrow> uid \<Rightarrow> cache_store \<Rightarrow> bool" where
  "fresh now u c = (case c u of None \<Rightarrow> False | Some e \<Rightarrow> now - ts e \<le> CACHE_TTL)"

section \<open>Strings and keys (index.js 54-85)\<close>

text \<open>
  A JavaScript string is modelled as the list of its code units, each below 256 (the
  Latin-1 range), which is what \<open>string\<close> holds. On these, \<^verbatim>\<open>\s\<close> and \<^verbatim>\<open>trim\<close> see tab,
  line feed, vertical tab, form feed, carriage return, space and the no-break space.
\<close>

definition is_space :: "char \<Rightarrow> bool" where
  "is_space c = ((of_char c :: nat) \<in> {9, 10, 11, 12, 13, 32, 160})"

text \<open>
  \<^verbatim>\<open>toLowerCase\<close> on one code unit: the capital letters are 65-90 and 192-222 without
  215; the small letter is 32 higher, which is the same code with the bit of 32 set.
\<close>

definition toLowerCase_char :: "char \<Rightarrow> char" where
  "toLowerCase_char c =
     (let n = (of_char c :: nat) in
      if (65 \<le> n \<and> n \<le> 90) \<or> (192 \<le> n \<and> n \<le> 222 \<and> n \<noteq> 215)
      then (case c of Char b0 b1 b2 b3 b4 b5 b6 b7 \<Rightarrow> Char b0 b1 b2 b3 b4 True b6 b7)
      else c)"

definition toLowerCase :: "string \<Rightarrow> string" where
  "toLowerCase s = map toLowerCase_char s"

definition trim :: "string \<Rightarrow> string" where
  "trim s = rev (dropWhile is_space (rev (dropWhile is_space s)))"

text \<open>\<^verbatim>\<open>replace(/\s+/g, "_")\<close>; the flag says that the character before was white space.\<close>

fun collapse_ws :: "bool \<Rightarrow> string \<Rightarrow> string" where
  "collapse_ws prev [] = []"
| "collapse_ws prev (c # cs) =
     (if is_space c
      then (if prev then collapse_ws True cs else CHR ''_'' # collapse_ws True cs)
      else c # collapse_ws False cs)"

text \<open>The characters that \<^verbatim>\<open>replace(/[^a-z0-9_]/g, "")\<close> keeps.\<close>

definition key_char :: "char \<Rightarrow> bool" where
  "key_char c =
     (let n = (of_char c :: nat) in
      (97 \<le> n \<and> n \<le> 122) \<or> (48 \<le> n \<and> n \<le> 57) \<or> n = 95)"

definition normalizeKey :: "string \<Rightarrow> string" where
  "normalizeKey k = filter key_char (collapse_ws False (toLowerCase k))"

definition genericKeys :: "string list" where
  "genericKeys =
     [''key'', ''value'', ''info'', ''data'', ''thing'', ''item'', ''note'', ''fact'',
      ''detail'', ''text'', ''content'', ''field'', ''var'', ''temp'', ''test'']"

definition dq :: string where
  "dq = [CHR 0x22]"

definition too_generic :: "string \<Rightarrow> string" where
  "too_generic normalized =
     ''Key '' @ dq @ normalized @ dq @ '' is too generic. Use descriptive names like '' @
     dq @ ''github_token'' @ dq @ '' or '' @ dq @ ''mom_birthday'' @ dq"

text \<open>\<^verbatim>\<open>validateKey\<close>: \<open>Inl\<close> the error of an invalid key, \<open>Inr\<close> the normalized key.\<close>

definition validateKey :: "string \<Rightarrow> string + string" where
  "validateKey k =
     (let normalized = normalizeKey k in
      if length normalized < 2 then Inl ''Key too short (min 2 chars)''
      else if length normalized > 100 then Inl ''Key too long (max 100 chars)''
      else if normalized \<in> set genericKeys then Inl (too_generic normalized)
      else Inr normalized)"

text \<open>\<^verbatim>\<open>Array.prototype.join("\n")\<close>.\<close>

fun join_nl :: "string list \<Rightarrow> string" where
  "join_nl [] = []"
| "join_nl [x] = x"
| "join_nl (x # y # ys) = x @ [CHR 0x0A] @ join_nl (y # ys)"

section \<open>The fact store (convex/memories.js)\<close>

text \<open>
  The table is the list of its rows in the order of insertion, which is the order the
  indexes \<^verbatim>\<open>by_user\<close> and \<^verbatim>\<open>by_user_key\<close> return them in.
\<close>

type_synonym table = "memory list"

definition is_row :: "uid \<Rightarrow> string \<Rightarrow> memory \<Rightarrow> bool" where
  "is_row u k m = (userId m = u \<and> key m = k)"

text \<open>\<^verbatim>\<open>saveMemory\<close>: patches the first row of the user and key, or inserts a row.\<close>

fun patch_first :: "uid \<Rightarrow> string \<Rightarrow> string \<Rightarrow> table \<Rightarrow> table" where
  "patch_first u k v [] = []"
| "patch_first u k v (m # ms) =
     (if is_row u k m then m\<lparr>value := v\<rparr> # ms else m # patch_first u k v ms)"

definition saveMemory :: "uid \<Rightarrow> string \<Rightarrow> string \<Rightarrow> table \<Rightarrow> table" where
  "saveMemory u k v t =
     (if list_ex (is_row u k) t then patch_first u k v t
      else t @ [\<lparr>userId = u, key = k, value = v\<rparr>])"

definition getMemory :: "uid \<Rightarrow> string \<Rightarrow> table \<Rightarrow> memory option" where
  "getMemory u k t = find (is_row u k) t"

definition listMemories :: "uid \<Rightarrow> table \<Rightarrow> memory list" where
  "listMemories u t = filter (\<lambda>m. userId m = u) t"

fun delete_first :: "uid \<Rightarrow> string \<Rightarrow> table \<Rightarrow> table" where
  "delete_first u k [] = []"
| "delete_first u k (m # ms) = (if is_row u k m then ms else m # delete_first u k ms)"

text \<open>\<^verbatim>\<open>deleteMemory\<close>: whether a row was found, and the table after.\<close>

definition deleteMemory :: "uid \<Rightarrow> string \<Rightarrow> table \<Rightarrow> bool \<times> table" where
  "deleteMemory u k t = (list_ex (is_row u k) t, delete_first u k t)"

text \<open>\<^verbatim>\<open>String.prototype.str_includes\<close>.\<close>

fun str_includes :: "string \<Rightarrow> string \<Rightarrow> bool" where
  "str_includes [] x = (x = [])"
| "str_includes (c # cs) x = (take (length x) (c # cs) = x \<or> str_includes cs x)"

definition replace_suffix :: "string \<Rightarrow> string \<Rightarrow> string \<Rightarrow> string" where
  "replace_suffix suf rep s =
     (if length suf \<le> length s \<and> drop (length s - length suf) s = suf
      then take (length s - length suf) s @ rep else s)"

definition normalizeText :: "string \<Rightarrow> string" where
  "normalizeText t =
     filter (\<lambda>c. c \<noteq> CHR ''_'' \<and> \<not> is_space c \<and> c \<noteq> CHR ''-'') (toLowerCase t)"

definition stemWord :: "string \<Rightarrow> string" where
  "stemWord w =
     replace_suffix ''ing'' ''''
       (replace_suffix ''ies'' ''y'' (replace_suffix ''es'' '''' (replace_suffix ''s'' '''' w)))"

text \<open>\<^verbatim>\<open>split(/\s+/).filter(w => w.length > 0)\<close>; \<open>cur\<close> is the word being read.\<close>

fun split_words :: "string \<Rightarrow> string \<Rightarrow> string list" where
  "split_words cur [] = (if cur = [] then [] else [cur])"
| "split_words cur (c # cs) =
     (if is_space c
      then (if cur = [] then split_words [] cs else cur # split_words [] cs)
      else split_words (cur @ [c]) cs)"

definition search_match :: "string \<Rightarrow> memory \<Rightarrow> bool" where
  "search_match q m =
     (let searchTerm = trim (toLowerCase q);
          normalizedSearch = normalizeText searchTerm;
          stemmedSearch = stemWord normalizedSearch;
          searchWords = split_words [] searchTerm;
          normalizedKey = normalizeText (key m);
          normalizedValue = normalizeText (value m);
          stemmedKey = stemWord normalizedKey;
          stemmedValue = stemWord normalizedValue;
          wordMatch = list_ex (\<lambda>word.
             let normalizedWord = normalizeText word;
                 stemmedWord = stemWord normalizedWord
             in str_includes normalizedKey normalizedWord \<or>
                str_includes normalizedValue normalizedWord \<or>
                str_includes stemmedKey stemmedWord \<or>
                str_includes stemmedValue stemmedWord \<or>
                str_includes (toLowerCase (key m)) word \<or>
                str_includes (toLowerCase (value m)) word) searchWords;
          fullMatch =
             (str_includes normalizedKey normalizedSearch \<or>
              str_includes normalizedValue normalizedSearch \<or>
              str_includes stemmedKey stemmedSearch \<or>
              str_includes stemmedValue stemmedSearch \<or>
              str_includes (toLowerCase (key m)) searchTerm \<or>
              str_includes (toLowerCase (value m)) searchTerm)
      in wordMatch \<or> fullMatch)"

definition searchMemories :: "uid \<Rightarrow> string \<Rightarrow> table \<Rightarrow> memory list" where
  "searchMemories u q t = filter (search_match q) (listMemories u t)"

section \<open>The environment and the state of the process\<close>

text \<open>
  A tool call of a completion. Its \<^verbatim>\<open>arguments\<close> string is held as what \<^verbatim>\<open>JSON.parse\<close>
  makes of it: \<open>None\<close> when \<^verbatim>\<open>JSON.parse\<close> throws, otherwise an object whose properties
  are absent (\<open>None\<close>) or of the type the schema \<^verbatim>\<open>TOOLS\<close> (lines 238-346) gives them.
\<close>

record mem_arg =
  m_key :: "string option"
  m_value :: "string option"

record tool_args =
  a_key :: "string option"
  a_value :: "string option"
  a_memories :: "mem_arg list option"
  a_query :: "string option"

record tool_call =
  tc_id :: string
  tc_name :: string
  tc_arguments :: "tool_args option"

text \<open>
  \<^verbatim>\<open>completion.choices[0].message\<close>: \<open>content\<close> is \<open>None\<close> for \<^verbatim>\<open>null\<close>, \<open>tool_calls\<close> is
  empty when the property is absent or an empty array.
\<close>

record completion =
  content :: "string option"
  tool_calls :: "tool_call list"

text \<open>The three shapes of message that \<^verbatim>\<open>chat\<close> sends.\<close>

datatype message =
  ChatMsg string string
| AssistantToolCalls "string option" "tool_call list"
| ToolResult string string

text \<open>A turn of the conversation history (lines 569-590).\<close>

record turn =
  role :: string
  text_of :: string
  timestamp :: int

text \<open>
  What the process does to the outside, in order: a \<^verbatim>\<open>sleep(ms)\<close>; a request
  \<^verbatim>\<open>client.chat.completions.create(params)\<close> with its API key, \<^verbatim>\<open>params.model\<close>,
  \<^verbatim>\<open>params.messages\<close> and whether \<^verbatim>\<open>params.tools\<close> is set; the calls of the fact store;
  the line \<^verbatim>\<open>Iteration i/5\<close> that \<^verbatim>\<open>chat\<close> logs at the start of a round; a reply sent to
  the user.
\<close>

datatype event =
  Sleep jsnum
| Request "string option" string "message list" bool
| DbSave uid string string
| DbGet uid string
| DbList uid
| DbSearch uid string
| DbDelete uid string
| LogIteration nat
| Reply string

text \<open>
  The environment, which the program does not control: the time that passes at the
  \<open>n\<close>-th suspension (\<^verbatim>\<open>await\<close>), what the provider answers to the \<open>n\<close>-th request, whether
  the \<open>n\<close>-th call of the fact store throws, the variable \<^verbatim>\<open>GROQ_MODEL\<close> and the text of
  \<^verbatim>\<open>SYSTEM_PROMPT\<close> (lines 592-758, which no branch of the program inspects).
\<close>

record env =
  elapsed :: "nat \<Rightarrow> nat"
  llm_reply :: "nat \<Rightarrow> js_error + completion"
  db_error :: "nat \<Rightarrow> js_error option"
  GROQ_MODEL :: "string option"
  SYSTEM_PROMPT :: string

record world =
  clock :: int
  apiKeys :: pool
  cache :: cache_store
  conversations :: "uid \<rightharpoonup> turn list"
  db :: table
  stats :: "uid \<rightharpoonup> nat"
  awaits :: nat
  llm_requests :: nat
  db_requests :: nat
  trace :: "event list"

text \<open>\<^verbatim>\<open>CONFIG\<close> (lines 13-24).\<close>

definition MODEL :: "env \<Rightarrow> string" where
  "MODEL env = (case GROQ_MODEL env of None \<Rightarrow> ''openai/gpt-oss-120b''
                | Some m \<Rightarrow> if m = [] then ''openai/gpt-oss-120b'' else m)"

definition FALLBACK_MODEL :: string where
  "FALLBACK_MODEL = ''openai/gpt-oss-20b''"

definition MAX_HISTORY :: nat where
  "MAX_HISTORY = 20"

definition MAX_ITERATIONS :: nat where
  "MAX_ITERATIONS = 5"

definition MAX_RETRIES :: nat where
  "MAX_RETRIES = 3"

definition RETRY_BASE_DELAY :: nat where
  "RETRY_BASE_DELAY = 2000"

definition MAX_MESSAGE_LENGTH :: nat where
  "MAX_MESSAGE_LENGTH = 4000"

text \<open>A suspension: the clock moves by what the environment says.\<close>

definition suspend :: "env \<Rightarrow> world \<Rightarrow> world" where
  "suspend env w = w\<lparr>clock := clock w + int (elapsed env (awaits w)), awaits := awaits w + 1\<rparr>"

text \<open>
  \<^verbatim>\<open>await sleep(ms)\<close>: the trace keeps the duration asked for; how long the timer really
  takes is the environment's.
\<close>

definition sleep :: "env \<Rightarrow> jsnum \<Rightarrow> world \<Rightarrow> world" where
  "sleep env ms w = suspend env (w\<lparr>trace := trace w @ [Sleep ms]\<rparr>)"

text \<open>
  A call \<^verbatim>\<open>convex.query\<close> or \<^verbatim>\<open>convex.mutation\<close>: \<open>Some e\<close> when it throws \<open>e\<close>, and then
  the table is taken to be unchanged.
\<close>

definition store_call :: "env \<Rightarrow> event \<Rightarrow> world \<Rightarrow> js_error option \<times> world" where
  "store_call env ev w =
     (db_error env (db_requests w),
      suspend env (w\<lparr>db_requests := db_requests w + 1, trace := trace w @ [ev]\<rparr>))"

section \<open>executeTool (index.js 353-496)\<close>

text \<open>The \<^verbatim>\<open>catch\<close> of line 492.\<close>

definition exec_error :: "string \<Rightarrow> js_error \<Rightarrow> string" where
  "exec_error name e = ''Error executing '' @ name @ '': '' @ message e"

text \<open>The \<^verbatim>\<open>TypeError\<close> of V8 for \<^verbatim>\<open>undefined.toLowerCase()\<close>, in \<^verbatim>\<open>normalizeKey\<close>.\<close>

definition no_key_error :: js_error where
  "no_key_error =
     JsError None (''Cannot read properties of undefined (reading '' @ [CHR 0x27] @
                   ''toLowerCase'' @ [CHR 0x27] @ '')'')"

text \<open>\<^verbatim>\<open>!value || value.trim().length === 0\<close>, for a string.\<close>

definition blank :: "string \<Rightarrow> bool" where
  "blank s = (s = [] \<or> trim s = [])"

definition save_memory :: "env \<Rightarrow> tool_args \<Rightarrow> uid \<Rightarrow> world \<Rightarrow> string \<times> world" where
  "save_memory env args u w =
     (case a_key args of
        None \<Rightarrow> (exec_error ''save_memory'' no_key_error, w)
      | Some k \<Rightarrow>
         (case validateKey k of
            Inl err \<Rightarrow> (''Error: '' @ err, w)
          | Inr nk \<Rightarrow>
             (case a_value args of
                None \<Rightarrow> (''Error: Cannot save empty value'', w)
              | Some v \<Rightarrow>
                 if blank v then (''Error: Cannot save empty value'', w)
                 else
                   (let (dup, c1) = isDuplicate (clock w) u nk v (cache w);
                        w1 = w\<lparr>cache := c1\<rparr>
                    in if dup then (''Already saved: '' @ nk, w1)
                       else
                         (case store_call env (DbSave u nk v) w1 of
                            (Some e, w2) \<Rightarrow> (exec_error ''save_memory'' e, w2)
                          | (None, w2) \<Rightarrow>
                              (''Saved: '' @ nk,
                               w2\<lparr>db := saveMemory u nk v (db w2),
                                  cache := upsert (clock w2) u nk v (cache w2)\<rparr>))))))"

text \<open>
  The first loop of \<^verbatim>\<open>save_memories\<close> (lines 394-415), with \<open>results\<close> and \<open>toSave\<close> as
  they grow; \<open>Inl\<close> when \<^verbatim>\<open>validateKey(m.key)\<close> throws.
\<close>

fun collect_memories ::
  "uid \<Rightarrow> mem_arg list \<Rightarrow> string list \<Rightarrow> (string \<times> string) list \<Rightarrow> world \<Rightarrow>
     (js_error + string list \<times> (string \<times> string) list) \<times> world" where
  "collect_memories u [] results toSave w = (Inr (results, toSave), w)"
| "collect_memories u (m # ms) results toSave w =
     (case m_key m of
        None \<Rightarrow> (Inl no_key_error, w)
      | Some k \<Rightarrow>
         (case validateKey k of
            Inl err \<Rightarrow>
              collect_memories u ms (results @ [''Skipped '' @ k @ '': '' @ err]) toSave w
          | Inr nk \<Rightarrow>
             (case m_value m of
                None \<Rightarrow>
                  collect_memories u ms (results @ [''Skipped '' @ nk @ '': empty value''])
                    toSave w
              | Some v \<Rightarrow>
                 if blank v
                 then collect_memories u ms (results @ [''Skipped '' @ nk @ '': empty value''])
                        toSave w
                 else
                   (let (dup, c1) = isDuplicate (clock w) u nk v (cache w);
                        w1 = w\<lparr>cache := c1\<rparr>
                    in if dup
                       then collect_memories u ms (results @ [''Already saved: '' @ nk])
                              toSave w1
                       else collect_memories u ms results (toSave @ [(nk, v)]) w1))))"

text \<open>The second loop (lines 417-424).\<close>

fun write_memories ::
  "env \<Rightarrow> uid \<Rightarrow> (string \<times> string) list \<Rightarrow> string list \<Rightarrow> world \<Rightarrow>
     (js_error + string list) \<times> world" where
  "write_memories env u [] results w = (Inr results, w)"
| "write_memories env u ((k, v) # rest) results w =
     (case store_call env (DbSave u k v) w of
        (Some e, w1) \<Rightarrow> (Inl e, w1)
      | (None, w1) \<Rightarrow>
          write_memories env u rest (results @ [''Saved: '' @ k])
            (w1\<lparr>db := saveMemory u k v (db w1),
                cache := upsert (clock w1) u k v (cache w1)\<rparr>))"

definition save_memories :: "env \<Rightarrow> tool_args \<Rightarrow> uid \<Rightarrow> world \<Rightarrow> string \<times> world" where
  "save_memories env args u w =
     (case a_memories args of
        None \<Rightarrow> (''Error: No memories provided'', w)
      | Some ms \<Rightarrow>
         if ms = [] then (''Error: No memories provided'', w)
         else
           (case collect_memories u ms [] [] w of
              (Inl e, w1) \<Rightarrow> (exec_error ''save_memories'' e, w1)
            | (Inr (results, toSave), w1) \<Rightarrow>
               (case write_memories env u toSave results w1 of
                  (Inl e, w2) \<Rightarrow> (exec_error ''save_memories'' e, w2)
                | (Inr results', w2) \<Rightarrow>
                    (if results' \<noteq> [] then join_nl results' else ''No memories saved'', w2))))"

definition show_memory :: "memory \<Rightarrow> string" where
  "show_memory m = key m @ '': '' @ value m"

text \<open>Lines 447-454: the key is absent or empty.\<close>

definition get_all_memories :: "env \<Rightarrow> uid \<Rightarrow> world \<Rightarrow> string \<times> world" where
  "get_all_memories env u w =
     (case store_call env (DbList u) w of
        (Some e, w1) \<Rightarrow> (exec_error ''get_memory'' e, w1)
      | (None, w1) \<Rightarrow>
         (let all = listMemories u (db w1);
              w2 = w1\<lparr>cache := setAll (clock w1) u all (cache w1)\<rparr>
          in if all = [] then (''No memories saved yet.'', w2)
             else (join_nl (map show_memory all), w2)))"

text \<open>Lines 439-444: the cache had no value, or an empty one, for the key.\<close>

definition get_stored_memory :: "env \<Rightarrow> string \<Rightarrow> uid \<Rightarrow> world \<Rightarrow> string \<times> world" where
  "get_stored_memory env k u w =
     (case store_call env (DbGet u k) w of
        (Some e, w1) \<Rightarrow> (exec_error ''get_memory'' e, w1)
      | (None, w1) \<Rightarrow>
         (case getMemory u k (db w1) of
            Some mem \<Rightarrow>
              (show_memory mem, w1\<lparr>cache := upsert (clock w1) u k (value mem) (cache w1)\<rparr>)
          | None \<Rightarrow> (''No memory found: '' @ k, w1)))"

definition get_memory :: "env \<Rightarrow> tool_args \<Rightarrow> uid \<Rightarrow> world \<Rightarrow> string \<times> world" where
  "get_memory env args u w =
     (case a_key args of
        None \<Rightarrow> get_all_memories env u w
      | Some k0 \<Rightarrow>
         if k0 = [] then get_all_memories env u w
         else
           (let k = normalizeKey k0;
                (cached, c1) = get (clock w) u k (cache w);
                w1 = w\<lparr>cache := c1\<rparr>
            in case cached of
                 None \<Rightarrow> get_stored_memory env k u w1
               | Some v \<Rightarrow>
                   if v = [] then get_stored_memory env k u w1
                   else (k @ '': '' @ v, w1)))"

definition search_memories :: "env \<Rightarrow> tool_args \<Rightarrow> uid \<Rightarrow> world \<Rightarrow> string \<times> world" where
  "search_memories env args u w =
     (case a_query args of
        None \<Rightarrow> (''Error: Search query cannot be empty'', w)
      | Some q \<Rightarrow>
         if blank q then (''Error: Search query cannot be empty'', w)
         else
           (case store_call env (DbSearch u q) w of
              (Some e, w1) \<Rightarrow> (exec_error ''search_memories'' e, w1)
            | (None, w1) \<Rightarrow>
               (let mems = searchMemories u q (db w1)
                in if mems = [] then (''Nothing found for: '' @ q, w1)
                   else (join_nl (map show_memory mems), w1))))"

definition delete_memory :: "env \<Rightarrow> tool_args \<Rightarrow> uid \<Rightarrow> world \<Rightarrow> string \<times> world" where
  "delete_memory env args u w =
     (case a_key args of
        None \<Rightarrow> (exec_error ''delete_memory'' no_key_error, w)
      | Some k0 \<Rightarrow>
         (let k = normalizeKey k0 in
          case store_call env (DbDelete u k) w of
            (Some e, w1) \<Rightarrow> (exec_error ''delete_memory'' e, w1)
          | (None, w1) \<Rightarrow>
             (case deleteMemory u k (db w1) of
                (True, t) \<Rightarrow>
                  (''Deleted: '' @ k,
                   w1\<lparr>db := t, cache := remove (clock w1) u k (cache w1)\<rparr>)
              | (False, t) \<Rightarrow> (''No memory found: '' @ k, w1\<lparr>db := t\<rparr>))))"

text \<open>\<^verbatim>\<open>executeTool(name, args, userId)\<close>: the text it returns; it never throws.\<close>

definition executeTool :: "env \<Rightarrow> string \<Rightarrow> tool_args \<Rightarrow> uid \<Rightarrow> world \<Rightarrow> string \<times> world" where
  "executeTool env name args u w =
     (if name = ''save_memory'' then save_memory env args u w
      else if name = ''save_memories'' then save_memories env args u w
      else if name = ''get_memory'' then get_memory env args u w
      else if name = ''search_memories'' then search_memories env args u w
      else if name = ''delete_memory'' then delete_memory env args u w
      else (''Unknown tool: '' @ name, w))"

section \<open>groqChat (index.js 498-567)\<close>

definition digit_char :: "char \<Rightarrow> bool" where
  "digit_char c = (48 \<le> (of_char c :: nat) \<and> (of_char c :: nat) \<le> 57)"

definition hint_char :: "char \<Rightarrow> bool" where
  "hint_char c = (digit_char c \<or> c = CHR ''.'')"

text \<open>
  \<^verbatim>\<open>message.match(/try again in ([\d.]+)s/i)\<close>: the group captured at the leftmost match,
  \<open>None\<close> when there is none. The group is the whole run of digits and dots, since the
  character after it has to be an \<^verbatim>\<open>s\<close>.
\<close>

fun match_retry :: "string \<Rightarrow> string option" where
  "match_retry [] = None"
| "match_retry (c # cs) =
     (let rest = drop 13 (c # cs);
          run = takeWhile hint_char rest;
          after = dropWhile hint_char rest
      in if toLowerCase (take 13 (c # cs)) = ''try again in '' \<and> run \<noteq> [] \<and>
            (case after of [] \<Rightarrow> False | a # _ \<Rightarrow> toLowerCase_char a = CHR ''s'')
         then Some run
         else match_retry cs)"

definition digits_value :: "string \<Rightarrow> nat" where
  "digits_value ds = foldl (\<lambda>a c. 10 * a + ((of_char c :: nat) - 48)) 0 ds"

text \<open>
  \<^verbatim>\<open>parseFloat\<close> on a string of digits and dots: the longest prefix that is a decimal
  literal, \<open>NaN\<close> when that prefix has no digit.
\<close>

definition parseFloat :: "string \<Rightarrow> jsnum" where
  "parseFloat s =
     (let whole = takeWhile digit_char s;
          rest = dropWhile digit_char s;
          frac = (case rest of [] \<Rightarrow> [] | d # ds \<Rightarrow> if d = CHR ''.'' then takeWhile digit_char ds else [])
      in if whole = [] \<and> frac = [] then NaN
         else Num (of_nat (digits_value whole) + of_nat (digits_value frac) / 10 ^ length frac))"

text \<open>Lines 535-538: the cooldown after a 429 on the attempt \<open>attempt\<close>.\<close>

definition cooldown_of :: "string \<Rightarrow> nat \<Rightarrow> jsnum" where
  "cooldown_of msg attempt =
     (case match_retry msg of
        Some g \<Rightarrow> js_add (js_mul (parseFloat g) (Num 1000)) (Num 500)
      | None \<Rightarrow> Num (of_nat (RETRY_BASE_DELAY * 2 ^ (attempt - 1))))"

text \<open>\<^verbatim>\<open>wait > 0\<close>.\<close>

definition js_pos :: "jsnum \<Rightarrow> bool" where
  "js_pos x = js_lt (Num 0) x"

text \<open>\<^verbatim>\<open>block\<close>, \<^verbatim>\<open>resetFailures\<close> and \<^verbatim>\<open>waitTime\<close> for what \<^verbatim>\<open>pick\<close> returned; no key has a
  state under \<^verbatim>\<open>undefined\<close>.\<close>

definition block_opt :: "int \<Rightarrow> string option \<Rightarrow> jsnum \<Rightarrow> pool \<Rightarrow> pool" where
  "block_opt now k ms p = (case k of None \<Rightarrow> p | Some k' \<Rightarrow> block now k' ms p)"

definition resetFailures_opt :: "string option \<Rightarrow> pool \<Rightarrow> pool" where
  "resetFailures_opt k p = (case k of None \<Rightarrow> p | Some k' \<Rightarrow> resetFailures k' p)"

definition waitTime_opt :: "int \<Rightarrow> string option \<Rightarrow> pool \<Rightarrow> jsnum" where
  "waitTime_opt now k p = (case k of None \<Rightarrow> js_max0 (js_sub (Num 0) (num_of_int now))
                           | Some k' \<Rightarrow> waitTime now k' p)"

text \<open>Lines 504-508: the wait for the cooldown of the key picked, if it has one left.\<close>

definition await_cooldown :: "env \<Rightarrow> string option \<Rightarrow> world \<Rightarrow> world" where
  "await_cooldown env apiKey w =
     (let wait = waitTime_opt (clock w) apiKey (apiKeys w)
      in if js_pos wait then sleep env wait w else w)"

text \<open>The request of line 528 and what the provider answers.\<close>

definition request ::
  "env \<Rightarrow> string option \<Rightarrow> message list \<Rightarrow> bool \<Rightarrow> world \<Rightarrow> (js_error + completion) \<times> world" where
  "request env k messages tools w =
     (llm_reply env (llm_requests w),
      suspend env (w\<lparr>llm_requests := llm_requests w + 1,
                     trace := trace w @ [Request k (MODEL env) messages tools]\<rparr>))"

text \<open>\<^verbatim>\<open>err.status >= 500\<close>, false for an error with no status.\<close>

definition server_error :: "js_error \<Rightarrow> bool" where
  "server_error e = (case status e of None \<Rightarrow> False | Some s \<Rightarrow> 500 \<le> s)"

text \<open>
  The loop of \<^verbatim>\<open>groqChat(messages, tools)\<close> from the attempt \<open>attempt\<close> on; \<open>tools\<close> says
  whether the second argument is the schema (or \<^verbatim>\<open>null\<close>), \<open>lastErr\<close> is the variable of
  line 499. \<open>Inl\<close> is the error thrown. The \<^verbatim>\<open>throw lastErr\<close> after the loop (line 566)
  is reached only when the body never ran; what it throws then, \<^verbatim>\<open>undefined\<close>, is
  written as an error with no status.
\<close>

function groqChat_from ::
  "env \<Rightarrow> message list \<Rightarrow> bool \<Rightarrow> nat \<Rightarrow> js_error option \<Rightarrow> world \<Rightarrow>
     (js_error + completion) \<times> world" where
  "groqChat_from env messages tools attempt lastErr w =
     (if attempt \<le> MAX_RETRIES then
        (case pick (clock w) (apiKeys w) of
           Inl e \<Rightarrow> (Inl e, w)
         | Inr (apiKey, p1) \<Rightarrow>
            (let w2 = await_cooldown env apiKey (w\<lparr>apiKeys := p1\<rparr>)
             in case request env apiKey messages tools w2 of
                  (Inr response, w3) \<Rightarrow>
                    (Inr response, w3\<lparr>apiKeys := resetFailures_opt apiKey (apiKeys w3)\<rparr>)
                | (Inl err, w3) \<Rightarrow>
                    (let cooldown = cooldown_of (message err) attempt;
                         w4 = (if status err = Some 429
                               then w3\<lparr>apiKeys := block_opt (clock w3) apiKey cooldown (apiKeys w3)\<rparr>
                               else w3)
                     in if status err = Some 429 \<and> attempt < MAX_RETRIES
                        then groqChat_from env messages tools (attempt + 1) (Some err)
                               (sleep env cooldown w4)
                        else if status err = Some 400
                        then (Inl (JsError None ''Invalid request format. Please try rephrasing.''), w4)
                        else if server_error err \<and> attempt < MAX_RETRIES
                        then groqChat_from env messages tools (attempt + 1) (Some err)
                               (sleep env (Num (of_nat (RETRY_BASE_DELAY * attempt))) w4)
                        else (Inl err, w4))))
      else (Inl (case lastErr of None \<Rightarrow> JsError None ''undefined'' | Some e \<Rightarrow> e), w))"
  by pat_completeness auto
termination
  by (relation "measure (\<lambda>(env, messages, tools, attempt, lastErr, w). Suc MAX_RETRIES - attempt)")
     auto

declare groqChat_from.simps [simp del]

definition groqChat :: "env \<Rightarrow> message list \<Rightarrow> bool \<Rightarrow> world \<Rightarrow> (js_error + completion) \<times> world" where
  "groqChat env messages tools w = groqChat_from env messages tools 1 None w"

section \<open>The conversation history (index.js 569-590)\<close>

definition getHistory :: "uid \<Rightarrow> (uid \<rightharpoonup> turn list) \<Rightarrow> turn list" where
  "getHistory u convs = (case convs u of None \<Rightarrow> [] | Some h \<Rightarrow> h)"

definition pushHistory ::
  "int \<Rightarrow> uid \<Rightarrow> string \<Rightarrow> string \<Rightarrow> (uid \<rightharpoonup> turn list) \<Rightarrow> (uid \<rightharpoonup> turn list)" where
  "pushHistory now u r c convs =
     (let h = getHistory u convs @ [\<lparr>role = r, text_of = c, timestamp = now\<rparr>]
      in convs(u \<mapsto> drop (length h - MAX_HISTORY) h))"

definition clearOldHistory :: "int \<Rightarrow> uid \<Rightarrow> (uid \<rightharpoonup> turn list) \<Rightarrow> (uid \<rightharpoonup> turn list)" where
  "clearOldHistory now u convs =
     convs(u \<mapsto> filter (\<lambda>msg. now - timestamp msg < 30 * 60 * 1000) (getHistory u convs))"

definition push :: "uid \<Rightarrow> string \<Rightarrow> string \<Rightarrow> world \<Rightarrow> world" where
  "push u r c w = w\<lparr>conversations := pushHistory (clock w) u r c (conversations w)\<rparr>"

section \<open>chat (index.js 760-888)\<close>

definition apos :: string where
  "apos = [CHR 0x27]"

text \<open>Lines 839-874, with \<open>messages\<close> and \<open>toolResults\<close> as they grow.\<close>

fun run_tools ::
  "env \<Rightarrow> uid \<Rightarrow> tool_call list \<Rightarrow> message list \<Rightarrow> string list \<Rightarrow> world \<Rightarrow>
     message list \<times> string list \<times> world" where
  "run_tools env u [] messages toolResults w = (messages, toolResults, w)"
| "run_tools env u (tc # tcs) messages toolResults w =
     (case tc_arguments tc of
        None \<Rightarrow>
          run_tools env u tcs
            (messages @ [ToolResult (tc_id tc) ''Error: invalid arguments format''])
            (toolResults @ [''Error: invalid arguments format'']) w
      | Some args \<Rightarrow>
          (let (result, w1) = executeTool env (tc_name tc) args u w
           in run_tools env u tcs (messages @ [ToolResult (tc_id tc) result])
                (toolResults @ [result]) w1))"

definition as_message :: "turn \<Rightarrow> message" where
  "as_message t = ChatMsg (role t) (text_of t)"

text \<open>Lines 798-804; \<^verbatim>\<open>slice(-5)\<close> is the last five turns, or all when there are fewer.\<close>

definition fallbackMessages :: "uid \<Rightarrow> world \<Rightarrow> message list" where
  "fallbackMessages u w =
     ChatMsg ''system''
       ''You are a helpful memory assistant. Answer from conversation context. Keep it short, no markdown.''
     # map as_message
         (drop (length (getHistory u (conversations w)) - 5) (getHistory u (conversations w)))"

text \<open>
  How the loop of lines 786-880 ends: at a \<^verbatim>\<open>break\<close> or after its last round, with
  \<^verbatim>\<open>finalResponse\<close>; at the \<^verbatim>\<open>return\<close> of line 809; or with an error thrown.
\<close>

datatype loop_exit = Break string | Returned string | Thrown js_error

text \<open>
  The loop from the round \<open>iter\<close> on. \<open>strip\<close> stands for \<^verbatim>\<open>stripMarkdown\<close> (lines 44-52), a
  function from strings to strings: \<^verbatim>\<open>chat\<close> only applies it to the text it returns, and
  what is proved of \<^verbatim>\<open>chat\<close> holds for every such function. (Its text is not written
  out here, since the bullet it inserts is a code unit above 255.)
\<close>

function chat_loop ::
  "env \<Rightarrow> (string \<Rightarrow> string) \<Rightarrow> uid \<Rightarrow> message list \<Rightarrow> nat \<Rightarrow> world \<Rightarrow> loop_exit \<times> world" where
  "chat_loop env strip u messages iter w =
     (if iter \<le> MAX_ITERATIONS then
        (case groqChat env messages True (w\<lparr>trace := trace w @ [LogIteration iter]\<rparr>) of
           (Inl err, w1) \<Rightarrow>
             if status err = Some 400 \<or> status err = Some 429 \<or> server_error err then
               (case groqChat env (fallbackMessages u w1) False w1 of
                  (Inr fb, w2) \<Rightarrow>
                    (let txt = (case content fb of
                                  None \<Rightarrow> ''Sorry, please try again in a moment.''
                                | Some t \<Rightarrow> t)
                     in (Returned (strip txt), push u ''assistant'' txt w2))
                | (Inl fallbackErr, w2) \<Rightarrow>
                    (Thrown (JsError None
                       ''Service temporarily unavailable. Please try again in a moment.''), w2))
             else (Thrown err, w1)
         | (Inr msg, w1) \<Rightarrow>
             if tool_calls msg = [] then
               (let reply = (case content msg of
                               None \<Rightarrow> ''I'' @ apos @ ''m here to help you remember things.''
                             | Some t \<Rightarrow>
                                 if t = [] then ''I'' @ apos @ ''m here to help you remember things.''
                                 else t)
                in (Break reply, push u ''assistant'' reply w1))
             else
               (let (messages', toolResults, w2) =
                      run_tools env u (tool_calls msg)
                        (messages @ [AssistantToolCalls (content msg) (tool_calls msg)]) [] w1
                in if iter = MAX_ITERATIONS \<and> toolResults \<noteq> []
                   then (Break (join_nl toolResults), w2)
                   else chat_loop env strip u messages' (iter + 1) w2))
      else (Break [], w))"
  by pat_completeness auto
termination
  by (relation "measure (\<lambda>(env, strip, u, messages, iter, w). Suc MAX_ITERATIONS - iter)") auto

declare chat_loop.simps [simp del]

text \<open>Lines 761-777; \<open>rnd\<close> is what \<^verbatim>\<open>Math.random()\<close> returns.\<close>

definition chat_start :: "env \<Rightarrow> rat \<Rightarrow> uid \<Rightarrow> string \<Rightarrow> world \<Rightarrow> world" where
  "chat_start env rnd u userMessage w =
     (let w1 = (if rnd < 1 / 10
                then w\<lparr>conversations := clearOldHistory (clock w) u (conversations w)\<rparr>
                else w);
          w2 = push u ''user'' userMessage w1;
          (all, c1) = getAll (clock w2) u (cache w2);
          w3 = w2\<lparr>cache := c1\<rparr>
      in case all of
           Some m \<Rightarrow> w3
         | None \<Rightarrow>
            (case store_call env (DbList u) w3 of
               (Some e, w4) \<Rightarrow> w4
             | (None, w4) \<Rightarrow>
                 w4\<lparr>cache := setAll (clock w4) u (listMemories u (db w4)) (cache w4)\<rparr>))"

definition no_response :: string where
  "no_response =
     ''I processed your request but couldn'' @ apos @
     ''t generate a complete response. Please try again.''"

text \<open>\<^verbatim>\<open>chat(userId, userMessage)\<close>: the text returned, or the error thrown.\<close>

definition chat ::
  "env \<Rightarrow> (string \<Rightarrow> string) \<Rightarrow> rat \<Rightarrow> uid \<Rightarrow> string \<Rightarrow> world \<Rightarrow> (js_error + string) \<times> world" where
  "chat env strip rnd u userMessage w =
     (let w0 = chat_start env rnd u userMessage w;
          messages = ChatMsg ''system'' (SYSTEM_PROMPT env)
                     # map as_message (getHistory u (conversations w0))
      in case chat_loop env strip u messages 1 w0 of
           (Returned r, w1) \<Rightarrow> (Inr r, w1)
         | (Thrown e, w1) \<Rightarrow> (Inl e, w1)
         | (Break fr, w1) \<Rightarrow>
             (let finalResponse = (if fr = [] then no_response else fr)
              in (Inr (strip finalResponse), push u ''assistant'' finalResponse w1)))"

section \<open>The handler of a text message (index.js 1014-1049)\<close>

definition line_end :: "char \<Rightarrow> bool" where
  "line_end c = (c = CHR 0x0A \<or> c = CHR 0x0D)"

text \<open>\<^verbatim>\<open>response.match(/.{1,4000}/g)\<close>: each line cut into pieces of at most 4000.\<close>

function chunk_line :: "string \<Rightarrow> string list" where
  "chunk_line s =
     (if s = [] then []
      else take MAX_MESSAGE_LENGTH s # chunk_line (drop MAX_MESSAGE_LENGTH s))"
  by pat_completeness auto
termination
  by (relation "measure length") (auto simp: MAX_MESSAGE_LENGTH_def)

declare chunk_line.simps [simp del]

fun split_lines :: "string \<Rightarrow> string \<Rightarrow> string list" where
  "split_lines cur [] = [cur]"
| "split_lines cur (c # cs) =
     (if line_end c then cur # split_lines [] cs else split_lines (cur @ [c]) cs)"

definition message_parts :: "string \<Rightarrow> string list" where
  "message_parts s = concat (map chunk_line (split_lines [] s))"

text \<open>\<^verbatim>\<open>await ctx.reply(part); await sleep(100)\<close> for each part.\<close>

fun send_parts :: "env \<Rightarrow> string list \<Rightarrow> world \<Rightarrow> world" where
  "send_parts env [] w = w"
| "send_parts env (part # parts) w =
     send_parts env parts
       (sleep env (Num 100) (suspend env (w\<lparr>trace := trace w @ [Reply part]\<rparr>)))"

definition generic_apology :: string where
  "generic_apology = ''Sorry, something went wrong. Please try again in a moment.''"

text \<open>
  The handler for the user \<open>u\<close> and the text \<open>text\<close>, when no other task of the user is
  queued: \<^verbatim>\<open>queue.enqueue\<close> counts the request and runs the task. The calls of the
  Telegram API are taken to succeed.
\<close>

definition on_text ::
  "env \<Rightarrow> (string \<Rightarrow> string) \<Rightarrow> rat \<Rightarrow> uid \<Rightarrow> string \<Rightarrow> world \<Rightarrow> world" where
  "on_text env strip rnd u text w =
     (if take 1 text = ''/''
      then w\<lparr>trace := trace w @ [Reply ''Unknown command. Try /help for available commands.'']\<rparr>
      else
        (let w1 = w\<lparr>stats := (stats w)(u \<mapsto> (case stats w u of None \<Rightarrow> 0 | Some n \<Rightarrow> n) + 1)\<rparr>;
             w2 = suspend env w1
         in case chat env strip rnd u text w2 of
              (Inr response, w3) \<Rightarrow>
                if length response > MAX_MESSAGE_LENGTH then
                  (if message_parts response = []
                   then w3\<lparr>trace := trace w3 @ [Reply generic_apology]\<rparr>
                   else send_parts env (message_parts response) w3)
                else suspend env (w3\<lparr>trace := trace w3 @ [Reply response]\<rparr>)
            | (Inl err, w3) \<Rightarrow>
                w3\<lparr>trace := trace w3 @
                   [Reply (if str_includes (message err) ''temporarily unavailable''
                           then message err else generic_apology)]\<rparr>))"

section \<open>Example states\<close>

definition pool3 :: pool where
  "pool3 =
     \<lparr>keys = [''gsk_a'', ''gsk_b'', ''gsk_c''],
      state = [''gsk_a'' \<mapsto> \<lparr>blockedUntil = Num 5000, failCount = 1\<rparr>,
               ''gsk_b'' \<mapsto> \<lparr>blockedUntil = Num 0, failCount = 3\<rparr>,
               ''gsk_c'' \<mapsto> \<lparr>blockedUntil = Num 0, failCount = 0\<rparr>],
      idx = 1\<rparr>"

text \<open>The pool as the constructor leaves it for three keys.\<close>

definition fresh_pool :: pool where
  "fresh_pool =
     \<lparr>keys = [''gsk_a'', ''gsk_b'', ''gsk_c''],
      state = [''gsk_a'' \<mapsto> \<lparr>blockedUntil = Num 0, failCount = 0\<rparr>,
               ''gsk_b'' \<mapsto> \<lparr>blockedUntil = Num 0, failCount = 0\<rparr>,
               ''gsk_c'' \<mapsto> \<lparr>blockedUntil = Num 0, failCount = 0\<rparr>],
      idx = 0\<rparr>"

text \<open>A process that has just started, at the time 1000000.\<close>

definition world0 :: world where
  "world0 =
     \<lparr>clock = 1000000, apiKeys = fresh_pool, cache = Map.empty, conversations = Map.empty,
      db = [], stats = Map.empty, awaits = 0, llm_requests = 0, db_requests = 0, trace = []\<rparr>"

text \<open>An environment in which no time passes, the store works and the provider answers
  the \<open>n\<close>-th request with \<open>reply n\<close>.\<close>

definition env_of :: "(nat \<Rightarrow> js_error + completion) \<Rightarrow> env" where
  "env_of reply =
     \<lparr>elapsed = (\<lambda>n. 0), llm_reply = reply, db_error = (\<lambda>n. None), GROQ_MODEL = None,
      SYSTEM_PROMPT = ''You are a memory assistant.''\<rparr>"

definition args_of :: "string option \<Rightarrow> string option \<Rightarrow> tool_args" where
  "args_of k v = \<lparr>a_key = k, a_value = v, a_memories = None, a_query = None\<rparr>"

definition plain :: "string \<Rightarrow> js_error + completion" where
  "plain t = Inr \<lparr>content = Some t, tool_calls = []\<rparr>"

definition calls :: "tool_call list \<Rightarrow> js_error + completion" where
  "calls tcs = Inr \<lparr>content = None, tool_calls = tcs\<rparr>"

definition failing :: "int \<Rightarrow> string \<Rightarrow> js_error + completion" where
  "failing st msg = Inl (JsError (Some st) msg)"

text \<open>The provider answers every request with the text \<^verbatim>\<open>ok\<close>.\<close>

definition env_plain :: env where
  "env_plain = env_of (\<lambda>n. plain ''ok'')"

text \<open>The process with an empty, just loaded cache entry for the user 7.\<close>

definition cached_world :: world where
  "cached_world = world0\<lparr>cache := setAll 1000000 7 [] Map.empty\<rparr>"

text \<open>The provider answers every request with a 429 that carries a hint of 7.66 seconds.\<close>

definition limit_message :: string where
  "limit_message = ''Rate limit reached for model. Please try again in 7.66s.''"


text \<open>The provider answers every request with the text \<^verbatim>\<open>Hello\<close> and no tool call.\<close>

definition env_hello :: env where
  "env_hello = env_of (\<lambda>n. plain ''Hello'')"

text \<open>The provider answers every request with the status 400.\<close>

definition env_bad_request :: env where
  "env_bad_request = env_of (\<lambda>n. failing 400 ''Bad request'')"

text \<open>The provider answers three requests with the status 429, then with a text.\<close>

definition env_recovering :: env where
  "env_recovering =
     env_of (\<lambda>n. if n < 3 then failing 429 ''Too many requests'' else plain ''Back again'')"

section \<open>Observations on a trace\<close>

text \<open>The rounds of \<^verbatim>\<open>chat\<close> that a trace shows: its lines \<^verbatim>\<open>Iteration i/5\<close>.\<close>

fun is_round :: "event \<Rightarrow> bool" where
  "is_round (LogIteration i) = True"
| "is_round ev = False"

definition rounds :: "world \<Rightarrow> nat" where
  "rounds w = length (filter is_round (trace w))"

text \<open>
  Between \<open>w\<close> and \<open>w'\<close> no round was logged, no request was sent to the provider and the
  pool of keys was not touched.
\<close>

definition no_llm :: "world \<Rightarrow> world \<Rightarrow> bool" where
  "no_llm w w' =
     (rounds w' = rounds w \<and> llm_requests w' = llm_requests w \<and> apiKeys w' = apiKeys w)"

text \<open>
  The environment of C2: the provider answers every request with a completion that has
  at least one tool call.
\<close>

definition always_tools :: "env \<Rightarrow> bool" where
  "always_tools env = (\<forall>n. \<exists>c. llm_reply env n = Inr c \<and> tool_calls c \<noteq> [])"

text \<open>The provider asks in every round to save one fact and to read it back.\<close>

definition env_tools :: env where
  "env_tools =
     env_of (\<lambda>n. calls
       [\<lparr>tc_id = ''call_1'', tc_name = ''save_memory'',
         tc_arguments = Some (args_of (Some ''github_token'') (Some ''ghp_abc123xyz''))\<rparr>,
        \<lparr>tc_id = ''call_2'', tc_name = ''get_memory'',
         tc_arguments = Some (args_of (Some ''github_token'') None)\<rparr>])"

section \<open>RequestQueue (index.js 215-236)\<close>

text \<open>
  \<^verbatim>\<open>enqueue(uid, fn)\<close> builds a chain of promises. The model keeps, for every call of
  \<^verbatim>\<open>enqueue\<close> in the order of the calls, the promise \<^verbatim>\<open>task\<close> it returned: the user, the
  promise \<^verbatim>\<open>prev\<close> it waits for (\<open>None\<close> for \<^verbatim>\<open>Promise.resolve()\<close>, otherwise the number
  of the task whose \<^verbatim>\<open>task.catch(() => {})\<close> was the tail of the user's chain) and where
  it stands: \<^verbatim>\<open>fn\<close> not yet called, \<^verbatim>\<open>fn\<close> called and its promise pending, or settled.
  A task \<^verbatim>\<open>fn\<close> is an \<^verbatim>\<open>async\<close> function, as in the handler of line 1024: calling it
  returns a promise and does not throw.
\<close>

datatype outcome = Fulfilled string | Rejected js_error

datatype task_status = Waiting | Running | Settled outcome

record task =
  t_uid :: uid
  t_prev :: "nat option"
  t_status :: task_status

record queue =
  tasks :: "task list"
  chains :: "uid \<rightharpoonup> nat"
  qstats :: "uid \<rightharpoonup> nat"

definition empty_queue :: queue where
  "empty_queue = \<lparr>tasks = [], chains = Map.empty, qstats = Map.empty\<rparr>"

text \<open>Lines 222-230: the count, the new promise \<^verbatim>\<open>task\<close> behind \<^verbatim>\<open>prev\<close>, the new tail.\<close>

definition enqueue :: "uid \<Rightarrow> queue \<Rightarrow> queue" where
  "enqueue u q =
     q\<lparr>qstats := (qstats q)(u \<mapsto> (case qstats q u of None \<Rightarrow> 0 | Some n \<Rightarrow> n) + 1),
       tasks := tasks q @ [\<lparr>t_uid = u, t_prev = chains q u, t_status = Waiting\<rparr>],
       chains := (chains q)(u \<mapsto> length (tasks q))\<rparr>"

definition settled :: "queue \<Rightarrow> nat \<Rightarrow> bool" where
  "settled q i = (i < length (tasks q) \<and>
                  (case t_status (tasks q ! i) of Settled out \<Rightarrow> True | _ \<Rightarrow> False))"

text \<open>
  \<^verbatim>\<open>prev\<close> has settled: \<^verbatim>\<open>Promise.resolve()\<close> has, and \<^verbatim>\<open>task.catch(() => {})\<close> is fulfilled
  once \<^verbatim>\<open>task\<close> is fulfilled or rejected.
\<close>

definition prev_settled :: "queue \<Rightarrow> nat \<Rightarrow> bool" where
  "prev_settled q i = (case t_prev (tasks q ! i) of None \<Rightarrow> True | Some j \<Rightarrow> settled q j)"

definition set_status :: "nat \<Rightarrow> task_status \<Rightarrow> queue \<Rightarrow> queue" where
  "set_status i st q = q\<lparr>tasks := (tasks q)[i := (tasks q ! i)\<lparr>t_status := st\<rparr>]\<rparr>"

text \<open>
  What can happen to the queue: a call of \<^verbatim>\<open>enqueue\<close>; the callback of \<^verbatim>\<open>prev.finally\<close>
  (line 227) running for a task whose \<^verbatim>\<open>prev\<close> has settled, which calls \<^verbatim>\<open>fn\<close>; the promise
  of \<^verbatim>\<open>fn\<close> settling, which settles \<^verbatim>\<open>task\<close> the same way (\<^verbatim>\<open>then(resolve, reject)\<close>).
\<close>

datatype queue_event = Enqueue uid | Start nat | Settle nat outcome

text \<open>An event in a state; \<open>None\<close> when it cannot happen there.\<close>

fun queue_step :: "queue \<Rightarrow> queue_event \<Rightarrow> queue option" where
  "queue_step q (Enqueue u) = Some (enqueue u q)"
| "queue_step q (Start i) =
     (if i < length (tasks q) \<and> t_status (tasks q ! i) = Waiting \<and> prev_settled q i
      then Some (set_status i Running q) else None)"
| "queue_step q (Settle i out) =
     (if i < length (tasks q) \<and> t_status (tasks q ! i) = Running
      then Some (set_status i (Settled out) q) else None)"

fun queue_run :: "queue \<Rightarrow> queue_event list \<Rightarrow> queue option" where
  "queue_run q [] = Some q"
| "queue_run q (ev # evs) =
     (case queue_step q ev of None \<Rightarrow> None | Some q' \<Rightarrow> queue_run q' evs)"

text \<open>The task \<open>i\<close> is of the user \<open>u\<close>.\<close>

definition task_of :: "queue \<Rightarrow> uid \<Rightarrow> nat \<Rightarrow> bool" where
  "task_of q u i = (i < length (tasks q) \<and> t_uid (tasks q ! i) = u)"

text \<open>\<^verbatim>\<open>fn\<close> of the task \<open>i\<close> has been called.\<close>

definition started :: "queue \<Rightarrow> nat \<Rightarrow> bool" where
  "started q i = (i < length (tasks q) \<and> t_status (tasks q ! i) \<noteq> Waiting)"

definition running :: "queue \<Rightarrow> nat \<Rightarrow> bool" where
  "running q i = (i < length (tasks q) \<and> t_status (tasks q ! i) = Running)"

text \<open>
  The shape of a queue that \<^verbatim>\<open>enqueue\<close> has built: \<^verbatim>\<open>prev\<close> of a task is the latest
  earlier task of its user, the tail of a user's chain is the user's latest task, and a
  task that has started has every earlier task of its user settled.
\<close>

definition latest_before :: "queue \<Rightarrow> uid \<Rightarrow> nat \<Rightarrow> nat option \<Rightarrow> bool" where
  "latest_before q u n p =
     (case p of
        None \<Rightarrow> (\<forall>k<n. \<not> task_of q u k)
      | Some j \<Rightarrow> j < n \<and> task_of q u j \<and> (\<forall>k. j < k \<and> k < n \<longrightarrow> \<not> task_of q u k))"

definition chained :: "queue \<Rightarrow> bool" where
  "chained q =
     ((\<forall>i<length (tasks q). latest_before q (t_uid (tasks q ! i)) i (t_prev (tasks q ! i))) \<and>
      (\<forall>u. latest_before q u (length (tasks q)) (chains q u)) \<and>
      (\<forall>i j. i < j \<and> j < length (tasks q) \<and> t_uid (tasks q ! i) = t_uid (tasks q ! j) \<and>
             started q j \<longrightarrow> settled q i))"

text \<open>
  Two messages of the user 7 and one of the user 8 are queued; the first task of the
  user 7 is rejected, then the second one runs.
\<close>

definition example_events :: "queue_event list" where
  "example_events =
     [Enqueue 7, Enqueue 7, Enqueue 8, Start 0, Start 2,
      Settle 0 (Rejected (JsError None ''Service temporarily unavailable'')), Start 1]"

section \<open>The credential pool: selection\<close>

lemma pick_scan_found:
  assumes "pool_ok p" "i0 < length (keys p)" "eligible now p (at_offset p i0)"
    and "\<forall>i'. i \<le> i' \<and> i' < i0 \<longrightarrow> \<not> eligible now p (at_offset p i')"
    and "i \<le> i0"
  shows "pick_scan now p i =
           Inr (Some (at_offset p i0,
                      p\<lparr>idx := ((idx p + i0) mod length (keys p) + 1) mod length (keys p)\<rparr>))"
  using assms
proof (induction "i0 - i" arbitrary: i)
  case 0
  then have "i = i0" by simp
  with 0 show ?case
    by (subst pick_scan.simps)
       (auto simp: eligible_def at_offset_def Let_def split: option.splits)
next
  case (Suc d)
  then have lt: "i < i0" by simp
  with Suc have ne: "\<not> eligible now p (at_offset p i)" by simp
  have il: "i < length (keys p)" using lt Suc.prems(2) by simp
  have mem: "keys p ! ((idx p + i) mod length (keys p)) \<in> set (keys p)"
    using il by (intro nth_mem mod_less_divisor) auto
  with Suc.prems(1) have "state p (keys p ! ((idx p + i) mod length (keys p))) \<noteq> None"
    unfolding pool_ok_def list_all_iff by blast
  then obtain s where s: "state p (keys p ! ((idx p + i) mod length (keys p))) = Some s"
    by auto
  have step: "pick_scan now p i = pick_scan now p (Suc i)"
    using ne s il by (subst pick_scan.simps) (auto simp: eligible_def at_offset_def Let_def)
  have "pick_scan now p (Suc i) =
           Inr (Some (at_offset p i0,
                      p\<lparr>idx := ((idx p + i0) mod length (keys p) + 1) mod length (keys p)\<rparr>))"
    using Suc.hyps(2) lt Suc.prems by (intro Suc.hyps(1)) auto
  with step show ?case by simp
qed

lemma pick_scan_none:
  assumes "pool_ok p"
    and "\<forall>i'. i \<le> i' \<and> i' < length (keys p) \<longrightarrow> \<not> eligible now p (at_offset p i')"
  shows "pick_scan now p i = Inr None"
  using assms
proof (induction "length (keys p) - i" arbitrary: i)
  case 0
  then show ?case by (subst pick_scan.simps) simp
next
  case (Suc d)
  then have il: "i < length (keys p)" by simp
  with Suc have ne: "\<not> eligible now p (at_offset p i)" by simp
  have "keys p ! ((idx p + i) mod length (keys p)) \<in> set (keys p)"
    using il by (intro nth_mem mod_less_divisor) auto
  with Suc.prems(1) have "state p (keys p ! ((idx p + i) mod length (keys p))) \<noteq> None"
    unfolding pool_ok_def list_all_iff by blast
  then obtain s where s: "state p (keys p ! ((idx p + i) mod length (keys p))) = Some s"
    by auto
  have step: "pick_scan now p i = pick_scan now p (Suc i)"
    using ne s il by (subst pick_scan.simps) (auto simp: eligible_def at_offset_def Let_def)
  have "pick_scan now p (Suc i) = Inr None"
    using Suc.hyps(2) Suc.prems by (intro Suc.hyps(1)) auto
  with step show ?case by simp
qed

lemma offsets_cover:
  assumes "j < n" "c < (n::nat)"
  shows "\<exists>i<n. (c + i) mod n = j"
proof (cases "c \<le> j")
  case True
  then have "(c + (j - c)) mod n = j" using assms by simp
  moreover have "j - c < n" using assms by simp
  ultimately show ?thesis by blast
next
  case False
  then have "(c + (n + j - c)) mod n = j" using assms by simp
  moreover have "n + j - c < n" using False assms by simp
  ultimately show ?thesis by blast
qed

lemma js_lt_irrefl: "\<not> js_lt a a"
  by (cases a) auto

lemma js_lt_trans: "js_lt a b \<Longrightarrow> js_lt b c \<Longrightarrow> js_lt a c"
  by (cases a; cases b; cases c) auto

lemma js_lt_not_le: "js_lt a b \<Longrightarrow> \<not> js_le b a"
  by (cases a; cases b) auto

lemma js_lt_not_lt: "js_lt a b \<Longrightarrow> \<not> js_lt b a"
  by (cases a; cases b) auto

lemma js_not_lt_lt_not_le: "\<not> js_lt k b \<Longrightarrow> js_lt r b \<Longrightarrow> \<not> js_le k r"
  by (cases k; cases b; cases r) auto

lemma js_not_lt_lt_not_lt: "\<not> js_lt k b \<Longrightarrow> js_lt r b \<Longrightarrow> \<not> js_lt k r"
  by (cases k; cases b; cases r) auto

lemma pick_best_result:
  assumes "state p b \<noteq> None" "\<forall>k\<in>set ks. state p k \<noteq> None"
  shows "\<exists>r. pick_best (state p) b ks = Inr r \<and>
           ((r = b \<and> (\<forall>k\<in>set ks. \<not> js_lt (bu p k) (bu p b))) \<or>
            (\<exists>m<length ks. r = ks ! m \<and> js_lt (bu p r) (bu p b) \<and>
               (\<forall>j<m. \<not> js_le (bu p (ks ! j)) (bu p r)) \<and>
               (\<forall>k\<in>set ks. \<not> js_lt (bu p k) (bu p r))))"
  using assms
proof (induction ks arbitrary: b)
  case Nil
  then show ?case by simp
next
  case (Cons k ks)
  from Cons.prems obtain bs kst where st: "state p b = Some bs" "state p k = Some kst"
    by auto
  have bub: "bu p b = blockedUntil bs" and buk: "bu p k = blockedUntil kst"
    using st by (simp_all add: bu_def)
  show ?case
  proof (cases "js_lt (bu p k) (bu p b)")
    case True
    then have eq: "pick_best (state p) b (k # ks) = pick_best (state p) k ks"
      using st bub buk by simp
    from Cons.IH [of k] Cons.prems st obtain r where
      r: "pick_best (state p) k ks = Inr r"
      and alt: "(r = k \<and> (\<forall>k'\<in>set ks. \<not> js_lt (bu p k') (bu p k))) \<or>
            (\<exists>m<length ks. r = ks ! m \<and> js_lt (bu p r) (bu p k) \<and>
               (\<forall>j<m. \<not> js_le (bu p (ks ! j)) (bu p r)) \<and>
               (\<forall>k'\<in>set ks. \<not> js_lt (bu p k') (bu p r)))"
      by auto
    from alt show ?thesis
    proof
      assume a: "r = k \<and> (\<forall>k'\<in>set ks. \<not> js_lt (bu p k') (bu p k))"
      have "0 < length (k # ks) \<and> r = (k # ks) ! 0 \<and> js_lt (bu p r) (bu p b) \<and>
               (\<forall>j<0. \<not> js_le (bu p ((k # ks) ! j)) (bu p r)) \<and>
               (\<forall>k'\<in>set (k # ks). \<not> js_lt (bu p k') (bu p r))"
        using a True by (simp add: js_lt_irrefl)
      then have ex: "\<exists>m<length (k # ks). r = (k # ks) ! m \<and> js_lt (bu p r) (bu p b) \<and>
               (\<forall>j<m. \<not> js_le (bu p ((k # ks) ! j)) (bu p r)) \<and>
               (\<forall>k'\<in>set (k # ks). \<not> js_lt (bu p k') (bu p r))"
        by (rule exI [of _ 0])
      show ?thesis unfolding eq r
        by (rule exI [of _ r], rule conjI, rule refl, rule disjI2, rule ex)
    next
      assume "\<exists>m<length ks. r = ks ! m \<and> js_lt (bu p r) (bu p k) \<and>
               (\<forall>j<m. \<not> js_le (bu p (ks ! j)) (bu p r)) \<and>
               (\<forall>k'\<in>set ks. \<not> js_lt (bu p k') (bu p r))"
      then obtain m where m: "m < length ks" "r = ks ! m" "js_lt (bu p r) (bu p k)"
        "\<forall>j<m. \<not> js_le (bu p (ks ! j)) (bu p r)"
        "\<forall>k'\<in>set ks. \<not> js_lt (bu p k') (bu p r)"
        by blast
      have before: "\<forall>j<Suc m. \<not> js_le (bu p ((k # ks) ! j)) (bu p r)"
      proof (intro allI impI)
        fix j assume "j < Suc m"
        then show "\<not> js_le (bu p ((k # ks) ! j)) (bu p r)"
          using m(3,4) by (cases j) (auto dest: js_lt_not_le)
      qed
      have "Suc m < length (k # ks) \<and> r = (k # ks) ! Suc m \<and> js_lt (bu p r) (bu p b) \<and>
               (\<forall>j<Suc m. \<not> js_le (bu p ((k # ks) ! j)) (bu p r)) \<and>
               (\<forall>k'\<in>set (k # ks). \<not> js_lt (bu p k') (bu p r))"
        using m True before by (auto intro: js_lt_trans dest: js_lt_not_lt)
      then have ex: "\<exists>m<length (k # ks). r = (k # ks) ! m \<and> js_lt (bu p r) (bu p b) \<and>
               (\<forall>j<m. \<not> js_le (bu p ((k # ks) ! j)) (bu p r)) \<and>
               (\<forall>k'\<in>set (k # ks). \<not> js_lt (bu p k') (bu p r))"
        by (rule exI [of _ "Suc m"])
      show ?thesis unfolding eq r
        by (rule exI [of _ r], rule conjI, rule refl, rule disjI2, rule ex)
    qed
  next
    case False
    then have eq: "pick_best (state p) b (k # ks) = pick_best (state p) b ks"
      using st bub buk by simp
    from Cons.IH [of b] Cons.prems obtain r where
      r: "pick_best (state p) b ks = Inr r"
      and alt: "(r = b \<and> (\<forall>k'\<in>set ks. \<not> js_lt (bu p k') (bu p b))) \<or>
            (\<exists>m<length ks. r = ks ! m \<and> js_lt (bu p r) (bu p b) \<and>
               (\<forall>j<m. \<not> js_le (bu p (ks ! j)) (bu p r)) \<and>
               (\<forall>k'\<in>set ks. \<not> js_lt (bu p k') (bu p r)))"
      by auto
    from alt show ?thesis
    proof
      assume "r = b \<and> (\<forall>k'\<in>set ks. \<not> js_lt (bu p k') (bu p b))"
      then have rb: "r = b \<and> (\<forall>k'\<in>set (k # ks). \<not> js_lt (bu p k') (bu p b))"
        using False by simp
      show ?thesis unfolding eq r
        by (rule exI [of _ r], rule conjI, rule refl, rule disjI1, rule rb)
    next
      assume "\<exists>m<length ks. r = ks ! m \<and> js_lt (bu p r) (bu p b) \<and>
               (\<forall>j<m. \<not> js_le (bu p (ks ! j)) (bu p r)) \<and>
               (\<forall>k'\<in>set ks. \<not> js_lt (bu p k') (bu p r))"
      then obtain m where m: "m < length ks" "r = ks ! m" "js_lt (bu p r) (bu p b)"
        "\<forall>j<m. \<not> js_le (bu p (ks ! j)) (bu p r)"
        "\<forall>k'\<in>set ks. \<not> js_lt (bu p k') (bu p r)"
        by blast
      have before: "\<forall>j<Suc m. \<not> js_le (bu p ((k # ks) ! j)) (bu p r)"
      proof (intro allI impI)
        fix j assume "j < Suc m"
        then show "\<not> js_le (bu p ((k # ks) ! j)) (bu p r)"
          using m(3,4) False by (cases j) (auto dest: js_not_lt_lt_not_le)
      qed
      have "Suc m < length (k # ks) \<and> r = (k # ks) ! Suc m \<and> js_lt (bu p r) (bu p b) \<and>
               (\<forall>j<Suc m. \<not> js_le (bu p ((k # ks) ! j)) (bu p r)) \<and>
               (\<forall>k'\<in>set (k # ks). \<not> js_lt (bu p k') (bu p r))"
        using m False before by (auto dest: js_not_lt_lt_not_lt)
      then have ex: "\<exists>m<length (k # ks). r = (k # ks) ! m \<and> js_lt (bu p r) (bu p b) \<and>
               (\<forall>j<m. \<not> js_le (bu p ((k # ks) ! j)) (bu p r)) \<and>
               (\<forall>k'\<in>set (k # ks). \<not> js_lt (bu p k') (bu p r))"
        by (rule exI [of _ "Suc m"])
      show ?thesis unfolding eq r
        by (rule exI [of _ r], rule conjI, rule refl, rule disjI2, rule ex)
    qed
  qed
qed

lemma at_offset_mem: "pool_ok p \<Longrightarrow> at_offset p i \<in> set (keys p)"
  unfolding at_offset_def pool_ok_def by (intro nth_mem mod_less_divisor) auto

lemma pick_eligible:
  assumes ok: "pool_ok p" and ex: "\<exists>k\<in>set (keys p). eligible now p k"
  shows "\<exists>i<length (keys p).
           pick now p = Inr (Some (at_offset p i),
              p\<lparr>idx := ((idx p + i) mod length (keys p) + 1) mod length (keys p)\<rparr>) \<and>
           eligible now p (at_offset p i) \<and>
           (\<forall>i'<i. \<not> eligible now p (at_offset p i'))"
proof -
  let ?n = "length (keys p)"
  let ?Q = "\<lambda>i. i < ?n \<and> eligible now p (at_offset p i)"
  from ex obtain j where j: "j < ?n" "eligible now p (keys p ! j)"
    by (auto simp: in_set_conv_nth)
  from ok have "idx p < ?n" by (simp add: pool_ok_def)
  with j(1) obtain i where "i < ?n" "(idx p + i) mod ?n = j"
    using offsets_cover [of j ?n "idx p"] by blast
  with j(2) have "?Q i" by (simp add: at_offset_def)
  then have least: "?Q (LEAST i. ?Q i)" by (rule LeastI)
  define i0 where "i0 = (LEAST i. ?Q i)"
  have i0: "i0 < ?n" "eligible now p (at_offset p i0)"
    using least by (simp_all add: i0_def)
  have before: "\<forall>i'<i0. \<not> eligible now p (at_offset p i')"
  proof (intro allI impI)
    fix i' assume lt: "i' < i0"
    then have "\<not> ?Q i'" unfolding i0_def by (rule not_less_Least)
    moreover have "i' < ?n" using lt i0(1) by simp
    ultimately show "\<not> eligible now p (at_offset p i')" by simp
  qed
  have "pick_scan now p 0 =
          Inr (Some (at_offset p i0,
                     p\<lparr>idx := ((idx p + i0) mod ?n + 1) mod ?n\<rparr>))"
    using ok i0 before by (intro pick_scan_found) auto
  then have "pick now p = Inr (Some (at_offset p i0),
                     p\<lparr>idx := ((idx p + i0) mod ?n + 1) mod ?n\<rparr>)"
    by (simp add: pick_def)
  with i0 before show ?thesis by blast
qed

lemma pick_fallback:
  assumes ok: "pool_ok p" and none: "\<forall>k\<in>set (keys p). \<not> eligible now p k"
  shows "\<exists>m<length (keys p).
           pick now p = Inr (Some (keys p ! m), p) \<and>
           (\<forall>k\<in>set (keys p). \<not> js_lt (bu p k) (bu p (keys p ! m))) \<and>
           (\<forall>j<m. \<not> js_le (bu p (keys p ! j)) (bu p (keys p ! m)))"
proof -
  from ok obtain k0 rest where ks: "keys p = k0 # rest"
    by (cases "keys p") (auto simp: pool_ok_def)
  have scan: "pick_scan now p 0 = Inr None"
    using ok none at_offset_mem [OF ok] by (intro pick_scan_none) auto
  have defined: "state p k0 \<noteq> None" "\<forall>k\<in>set (keys p). state p k \<noteq> None"
    using ok ks by (auto simp: pool_ok_def list_all_iff)
  from pick_best_result [OF defined] obtain r where
    r: "pick_best (state p) k0 (keys p) = Inr r"
    and alt: "(r = k0 \<and> (\<forall>k\<in>set (keys p). \<not> js_lt (bu p k) (bu p k0))) \<or>
            (\<exists>m<length (keys p). r = keys p ! m \<and> js_lt (bu p r) (bu p k0) \<and>
               (\<forall>j<m. \<not> js_le (bu p (keys p ! j)) (bu p r)) \<and>
               (\<forall>k\<in>set (keys p). \<not> js_lt (bu p k) (bu p r)))"
    by blast
  have res: "pick now p = Inr (Some r, p)"
    using scan r ks by (simp add: pick_def)
  from alt show ?thesis
  proof
    assume a: "r = k0 \<and> (\<forall>k\<in>set (keys p). \<not> js_lt (bu p k) (bu p k0))"
    then have "0 < length (keys p) \<and> pick now p = Inr (Some (keys p ! 0), p) \<and>
           (\<forall>k\<in>set (keys p). \<not> js_lt (bu p k) (bu p (keys p ! 0))) \<and>
           (\<forall>j<0. \<not> js_le (bu p (keys p ! j)) (bu p (keys p ! 0)))"
      using res ks by simp
    then show ?thesis by (rule exI [of _ 0])
  next
    assume "\<exists>m<length (keys p). r = keys p ! m \<and> js_lt (bu p r) (bu p k0) \<and>
               (\<forall>j<m. \<not> js_le (bu p (keys p ! j)) (bu p r)) \<and>
               (\<forall>k\<in>set (keys p). \<not> js_lt (bu p k) (bu p r))"
    then obtain m where m: "m < length (keys p)" "r = keys p ! m"
        "\<forall>j<m. \<not> js_le (bu p (keys p ! j)) (bu p r)"
        "\<forall>k\<in>set (keys p). \<not> js_lt (bu p k) (bu p r)"
      by blast
    then have "m < length (keys p) \<and> pick now p = Inr (Some (keys p ! m), p) \<and>
           (\<forall>k\<in>set (keys p). \<not> js_lt (bu p k) (bu p (keys p ! m))) \<and>
           (\<forall>j<m. \<not> js_le (bu p (keys p ! j)) (bu p (keys p ! m)))"
      using res by simp
    then show ?thesis by (rule exI [of _ m])
  qed
qed

text \<open>
  C1. In a pool as the constructor builds it, \<^verbatim>\<open>pick\<close> at the time \<open>now\<close>:
  \<^item> when some credential is eligible (\<^verbatim>\<open>blockedUntil <= now\<close> and \<^verbatim>\<open>failCount < 3\<close>),
    returns the first eligible credential in round-robin order from the cursor and moves
    the cursor just past it, so the credential returned is never one with three or more
    failures or one blocked into the future;
  \<^item> when none is eligible, returns a credential of the pool such that no credential has a
    smaller \<^verbatim>\<open>blockedUntil\<close> and none before it in pool order has one as small, and leaves
    the cursor where it was;
  \<^item> when the pool has exactly one credential, returns that credential whatever its state.
\<close>

theorem pick_round_robin:
  assumes "pool_ok p"
  shows "((\<exists>k\<in>set (keys p). eligible now p k) \<longrightarrow>
           (\<exists>i<length (keys p).
              pick now p = Inr (Some (at_offset p i),
                 p\<lparr>idx := ((idx p + i) mod length (keys p) + 1) mod length (keys p)\<rparr>) \<and>
              eligible now p (at_offset p i) \<and>
              (\<forall>i'<i. \<not> eligible now p (at_offset p i')))) \<and>
         ((\<forall>k\<in>set (keys p). \<not> eligible now p k) \<longrightarrow>
           (\<exists>m<length (keys p).
              pick now p = Inr (Some (keys p ! m), p) \<and>
              (\<forall>k\<in>set (keys p). \<not> js_lt (bu p k) (bu p (keys p ! m))) \<and>
              (\<forall>j<m. \<not> js_le (bu p (keys p ! j)) (bu p (keys p ! m))))) \<and>
         (length (keys p) = 1 \<longrightarrow> (\<exists>p'. pick now p = Inr (Some (keys p ! 0), p')))"
proof (intro conjI impI)
  assume "\<exists>k\<in>set (keys p). eligible now p k"
  with assms show "\<exists>i<length (keys p).
              pick now p = Inr (Some (at_offset p i),
                 p\<lparr>idx := ((idx p + i) mod length (keys p) + 1) mod length (keys p)\<rparr>) \<and>
              eligible now p (at_offset p i) \<and>
              (\<forall>i'<i. \<not> eligible now p (at_offset p i'))"
    by (rule pick_eligible)
next
  assume "\<forall>k\<in>set (keys p). \<not> eligible now p k"
  with assms show "\<exists>m<length (keys p).
              pick now p = Inr (Some (keys p ! m), p) \<and>
              (\<forall>k\<in>set (keys p). \<not> js_lt (bu p k) (bu p (keys p ! m))) \<and>
              (\<forall>j<m. \<not> js_le (bu p (keys p ! j)) (bu p (keys p ! m)))"
    by (rule pick_fallback)
next
  assume one: "length (keys p) = 1"
  show "\<exists>p'. pick now p = Inr (Some (keys p ! 0), p')"
  proof (cases "\<exists>k\<in>set (keys p). eligible now p k")
    case True
    from pick_eligible [OF assms True] obtain i where
      "i < length (keys p)" "pick now p = Inr (Some (at_offset p i),
              p\<lparr>idx := ((idx p + i) mod length (keys p) + 1) mod length (keys p)\<rparr>)"
      by blast
    then show ?thesis using one by (auto simp: at_offset_def)
  next
    case False
    then have "\<forall>k\<in>set (keys p). \<not> eligible now p k" by blast
    from pick_fallback [OF assms this] obtain m where
      "m < length (keys p)" "pick now p = Inr (Some (keys p ! m), p)"
      by blast
    then show ?thesis using one by auto
  qed
qed

theorem pick_round_robin_witness:
  "pool_ok pool3 \<and> (\<exists>k\<in>set (keys pool3). eligible 1000 pool3 k) \<and>
   pick 1000 pool3 = Inr (Some ''gsk_c'', pool3\<lparr>idx := 0\<rparr>) \<and>
   pool_ok (pool3\<lparr>state := (state pool3)(''gsk_c'' \<mapsto> \<lparr>blockedUntil = Num 3000, failCount = 1\<rparr>)\<rparr>) \<and>
   (\<exists>p'. pick 1000 (pool3\<lparr>state := (state pool3)(''gsk_c'' \<mapsto> \<lparr>blockedUntil = Num 3000, failCount = 1\<rparr>)\<rparr>)
      = Inr (Some ''gsk_b'', p'))"
proof -
  let ?q = "pool3\<lparr>state := (state pool3)(''gsk_c'' \<mapsto> \<lparr>blockedUntil = Num 3000, failCount = 1\<rparr>)\<rparr>"
  have ok: "pool_ok pool3" by (simp add: pool_ok_def pool3_def)
  have el: "\<exists>k\<in>set (keys pool3). eligible 1000 pool3 k"
    by (simp add: pool3_def eligible_def num_of_int_def)
  from pick_round_robin [OF ok, of 1000] el obtain i where
    i: "i < length (keys pool3)"
       "pick 1000 pool3 = Inr (Some (at_offset pool3 i),
          pool3\<lparr>idx := ((idx pool3 + i) mod length (keys pool3) + 1) mod length (keys pool3)\<rparr>)"
       "eligible 1000 pool3 (at_offset pool3 i)"
    by blast
  from i(1) have "i = 0 \<or> i = 1 \<or> i = 2" by (auto simp: pool3_def)
  with i(3) have "i = 1"
    by (auto simp: pool3_def eligible_def at_offset_def num_of_int_def)
  with i(2) have first: "pick 1000 pool3 = Inr (Some ''gsk_c'', pool3\<lparr>idx := 0\<rparr>)"
    by (simp add: pool3_def at_offset_def)
  have okq: "pool_ok ?q" by (simp add: pool_ok_def pool3_def)
  have none: "\<forall>k\<in>set (keys ?q). \<not> eligible 1000 ?q k"
    by (simp add: pool3_def eligible_def num_of_int_def)
  from pick_round_robin [OF okq, of 1000] none obtain m where
    m: "m < length (keys ?q)" "pick 1000 ?q = Inr (Some (keys ?q ! m), ?q)"
       "\<forall>k\<in>set (keys ?q). \<not> js_lt (bu ?q k) (bu ?q (keys ?q ! m))"
    by blast
  from m(1) have "m = 0 \<or> m = 1 \<or> m = 2" by (auto simp: pool3_def)
  with m(3) have "m = 1"
    by (auto simp: pool3_def bu_def)
  with m(2) have "pick 1000 ?q = Inr (Some ''gsk_b'', ?q)"
    by (simp add: pool3_def)
  with ok el first okq show ?thesis by blast
qed

section \<open>The fact cache\<close>

text \<open>
  C8. \<^verbatim>\<open>isDuplicate(uid, key, value)\<close> is true exactly when the user's entry is present
  and unexpired and its map holds exactly that value for the key. After an \<^verbatim>\<open>upsert\<close> of
  that key and value it is true exactly when the upsert found a present, unexpired entry
  and the entry has not expired since; after a \<^verbatim>\<open>remove\<close> of the key or an
  \<^verbatim>\<open>invalidate\<close> of the user it is false, and it is false once the entry is older than
  the time to live.
\<close>

theorem isDuplicate_iff:
  "fst (isDuplicate now u k v c) =
     (\<exists>e. c u = Some e \<and> now - ts e \<le> CACHE_TTL \<and> emap e k = Some v) \<and>
   fst (isDuplicate t2 u k v (upsert t1 u k v c)) = (fresh t1 u c \<and> t2 - t1 \<le> CACHE_TTL) \<and>
   fst (isDuplicate t2 u k v (remove t1 u k c)) = False \<and>
   fst (isDuplicate t2 u k v (invalidate u c)) = False \<and>
   (\<forall>e. c u = Some e \<longrightarrow> CACHE_TTL < now - ts e \<longrightarrow> fst (isDuplicate now u k v c) = False)"
  by (auto simp: isDuplicate_def entry_def upsert_def remove_def invalidate_def fresh_def
           split: option.splits if_splits)

theorem isDuplicate_iff_witness:
  "fst (isDuplicate 2000 7 ''github_token'' ''ghp_abc123xyz''
          (upsert 1000 7 ''github_token'' ''ghp_abc123xyz'' (setAll 0 7 [] Map.empty))) \<and>
   \<not> fst (isDuplicate 2000 7 ''github_token'' ''ghp_abc123xyz''
          (upsert 1000 7 ''github_token'' ''ghp_abc123xyz'' Map.empty)) \<and>
   setAll 0 7 [\<lparr>userId = 7, key = ''github_token'', value = ''ghp_abc123xyz''\<rparr>] Map.empty 7
     = Some \<lparr>emap = [''github_token'' \<mapsto> ''ghp_abc123xyz''], ts = 0\<rparr> \<and>
   CACHE_TTL < 300001 - 0 \<and>
   \<not> fst (isDuplicate 300001 7 ''github_token'' ''ghp_abc123xyz''
          (setAll 0 7 [\<lparr>userId = 7, key = ''github_token'', value = ''ghp_abc123xyz''\<rparr>]
             Map.empty))"
proof -
  let ?c = "setAll 0 7 [\<lparr>userId = 7, key = ''github_token'', value = ''ghp_abc123xyz''\<rparr>] Map.empty"
  have e: "?c 7 = Some \<lparr>emap = [''github_token'' \<mapsto> ''ghp_abc123xyz''], ts = 0\<rparr>"
    by (simp add: setAll_def)
  have late: "CACHE_TTL < 300001 - ts \<lparr>emap = [''github_token'' \<mapsto> ''ghp_abc123xyz''], ts = 0\<rparr>"
    by (simp add: CACHE_TTL_def)
  have f: "fresh 1000 7 (setAll 0 7 [] Map.empty)"
    by (simp add: fresh_def setAll_def CACHE_TTL_def)
  have nf: "\<not> fresh 1000 7 Map.empty"
    by (simp add: fresh_def)
  have "fst (isDuplicate 2000 7 ''github_token'' ''ghp_abc123xyz''
          (upsert 1000 7 ''github_token'' ''ghp_abc123xyz'' (setAll 0 7 [] Map.empty)))"
    using isDuplicate_iff [of 2000 7 "''github_token''" "''ghp_abc123xyz''"
        "setAll 0 7 [] Map.empty" 2000 1000] f
    by (simp add: CACHE_TTL_def)
  moreover have "\<not> fst (isDuplicate 2000 7 ''github_token'' ''ghp_abc123xyz''
          (upsert 1000 7 ''github_token'' ''ghp_abc123xyz'' Map.empty))"
    using isDuplicate_iff [of 2000 7 "''github_token''" "''ghp_abc123xyz''" Map.empty 2000 1000] nf
    by simp
  moreover have "\<not> fst (isDuplicate 300001 7 ''github_token'' ''ghp_abc123xyz'' ?c)"
    using isDuplicate_iff [of 300001 7 "''github_token''" "''ghp_abc123xyz''" ?c 0 0] e late
    by blast
  ultimately show ?thesis using e late by simp
qed

section \<open>The tools\<close>

lemma generic_lengths: "n \<in> set genericKeys \<Longrightarrow> 2 \<le> length n \<and> length n \<le> 100"
  by (auto simp: genericKeys_def)

lemma validateKey_generic:
  "normalizeKey k \<in> set genericKeys \<Longrightarrow> validateKey k = Inl (too_generic (normalizeKey k))"
  using generic_lengths [of "normalizeKey k"] by (auto simp: validateKey_def Let_def)

text \<open>
  C7 (as amended). A \<^verbatim>\<open>save_memory\<close> call whose key normalizes to one of the generic
  terms of \<^verbatim>\<open>validateKey\<close> (the key \<^verbatim>\<open>Test!\<close>, say, which normalizes to \<^verbatim>\<open>test\<close>) returns
  the validation error as the tool result and leaves the whole state as it was: no call
  of the fact store, no change of the cache.
\<close>

theorem generic_key_rejected:
  assumes "a_key args = Some k" and "normalizeKey k \<in> set genericKeys"
  shows "executeTool env ''save_memory'' args u w =
           (''Error: '' @ too_generic (normalizeKey k), w)"
  using assms by (simp add: executeTool_def save_memory_def validateKey_generic)

lemma normalizeKey_Test: "normalizeKey ''Test!'' = ''test''"
  by (simp add: normalizeKey_def toLowerCase_def toLowerCase_char_def is_space_def key_char_def)

lemma normalizeKey_Token: "normalizeKey ''Token '' = ''token_''"
  by (simp add: normalizeKey_def toLowerCase_def toLowerCase_char_def is_space_def key_char_def)

theorem generic_key_rejected_witness:
  "a_key (args_of (Some ''Test!'') (Some ''abc'')) = Some ''Test!'' \<and>
   normalizeKey ''Test!'' \<in> set genericKeys \<and>
   executeTool env_plain ''save_memory'' (args_of (Some ''Test!'') (Some ''abc'')) 7 world0 =
     (''Error: '' @ too_generic ''test'', world0)"
proof -
  have a: "a_key (args_of (Some ''Test!'') (Some ''abc'')) = Some ''Test!''"
    by (simp add: args_of_def)
  have g: "normalizeKey ''Test!'' \<in> set genericKeys"
    by (simp add: normalizeKey_Test genericKeys_def)
  from generic_key_rejected [OF a g, of env_plain 7 world0] a g show ?thesis
    by (simp add: normalizeKey_Test)
qed

text \<open>
  The example of C7 as it was stated: the key \<^verbatim>\<open>Token \<close> normalizes to \<^verbatim>\<open>token_\<close>, which is
  not a generic term (nor is \<^verbatim>\<open>token\<close>), and the fact is written to the store.
\<close>

theorem token_key_saved:
  "normalizeKey ''Token '' = ''token_'' \<and>
   ''token_'' \<notin> set genericKeys \<and> ''token'' \<notin> set genericKeys \<and>
   fst (executeTool env_plain ''save_memory'' (args_of (Some ''Token '') (Some ''abc'')) 7 world0)
     = ''Saved: token_'' \<and>
   db (snd (executeTool env_plain ''save_memory'' (args_of (Some ''Token '') (Some ''abc'')) 7
              world0))
     = [\<lparr>userId = 7, key = ''token_'', value = ''abc''\<rparr>] \<and>
   trace (snd (executeTool env_plain ''save_memory'' (args_of (Some ''Token '') (Some ''abc'')) 7
              world0))
     = [DbSave 7 ''token_'' ''abc'']"
  by (simp add: normalizeKey_Token genericKeys_def executeTool_def save_memory_def validateKey_def
        args_of_def blank_def trim_def is_space_def isDuplicate_def entry_def world0_def
        store_call_def suspend_def env_plain_def env_of_def saveMemory_def upsert_def Let_def)

lemma normalizeKey_github: "normalizeKey ''github_token'' = ''github_token''"
  by (simp add: normalizeKey_def toLowerCase_def toLowerCase_char_def is_space_def key_char_def)

lemma validateKey_github: "validateKey ''github_token'' = Inr ''github_token''"
  by (simp add: validateKey_def normalizeKey_github genericKeys_def)

lemma not_blank_ghp: "\<not> blank ''ghp_abc123xyz''"
  by (simp add: blank_def trim_def is_space_def)

lemma save_github_cases:
  assumes "executeTool env ''save_memory''
             (args_of (Some ''github_token'') (Some ''ghp_abc123xyz'')) u w
           = (''Saved: github_token'', w1)"
  shows "\<not> fst (isDuplicate (clock w) u ''github_token'' ''ghp_abc123xyz'' (cache w)) \<and>
         db_error env (db_requests w) = None \<and>
         clock w1 = clock w + int (elapsed env (awaits w)) \<and>
         cache w1 = upsert (clock w1) u ''github_token'' ''ghp_abc123xyz''
                      (snd (isDuplicate (clock w) u ''github_token'' ''ghp_abc123xyz'' (cache w)))"
  using assms
  by (auto simp: executeTool_def save_memory_def args_of_def validateKey_github not_blank_ghp
        exec_error_def store_call_def suspend_def Let_def
        split: prod.splits if_splits option.splits)

text \<open>
  C9. After a \<^verbatim>\<open>save_memory\<close> of the key \<^verbatim>\<open>github_token\<close> with the value
  \<^verbatim>\<open>ghp_abc123xyz\<close> that returned \<^verbatim>\<open>Saved: github_token\<close>, when the user's cache entry was
  present and still unexpired as the save completed, a \<^verbatim>\<open>get_memory\<close> of \<^verbatim>\<open>github_token\<close>
  within the time to live returns exactly that value and leaves the state as it was: no
  call of the fact store. When the user had no cache entry, the save creates none.
\<close>

theorem save_then_get_from_cache:
  assumes "executeTool env ''save_memory''
             (args_of (Some ''github_token'') (Some ''ghp_abc123xyz'')) u w
           = (''Saved: github_token'', w1)"
  shows "(fresh (clock w1) u (cache w) \<and> t - clock w1 \<le> CACHE_TTL \<longrightarrow>
            executeTool env ''get_memory'' (args_of (Some ''github_token'') None) u
              (w1\<lparr>clock := t\<rparr>)
            = (''github_token: ghp_abc123xyz'', w1\<lparr>clock := t\<rparr>)) \<and>
         (cache w u = None \<longrightarrow> cache w1 u = None)"
proof -
  note c = save_github_cases [OF assms]
  have le: "clock w \<le> clock w1" using c by simp
  show ?thesis
  proof (intro conjI impI)
    assume a: "fresh (clock w1) u (cache w) \<and> t - clock w1 \<le> CACHE_TTL"
    then obtain e where e: "cache w u = Some e" "clock w1 - ts e \<le> CACHE_TTL"
      by (auto simp: fresh_def split: option.splits)
    have c1: "cache w1 = (cache w)(u \<mapsto> e\<lparr>emap := (emap e)(''github_token'' \<mapsto> ''ghp_abc123xyz''),
                                            ts := clock w1\<rparr>)"
      using c e le by (auto simp: isDuplicate_def entry_def upsert_def)
    show "executeTool env ''get_memory'' (args_of (Some ''github_token'') None) u
              (w1\<lparr>clock := t\<rparr>)
            = (''github_token: ghp_abc123xyz'', w1\<lparr>clock := t\<rparr>)"
      using a c1
      by (simp add: executeTool_def get_memory_def args_of_def normalizeKey_github get_def
            entry_def Let_def)
  next
    assume "cache w u = None"
    then show "cache w1 u = None"
      using c by (simp add: isDuplicate_def entry_def upsert_def)
  qed
qed

theorem save_then_get_from_cache_witness:
  "fst (executeTool env_plain ''save_memory''
          (args_of (Some ''github_token'') (Some ''ghp_abc123xyz'')) 7 cached_world)
     = ''Saved: github_token'' \<and>
   fresh (clock (snd (executeTool env_plain ''save_memory''
          (args_of (Some ''github_token'') (Some ''ghp_abc123xyz'')) 7 cached_world))) 7
     (cache cached_world) \<and>
   executeTool env_plain ''get_memory'' (args_of (Some ''github_token'') None) 7
     (snd (executeTool env_plain ''save_memory''
          (args_of (Some ''github_token'') (Some ''ghp_abc123xyz'')) 7 cached_world))
     = (''github_token: ghp_abc123xyz'',
        snd (executeTool env_plain ''save_memory''
          (args_of (Some ''github_token'') (Some ''ghp_abc123xyz'')) 7 cached_world))"
proof -
  define r where "r = executeTool env_plain ''save_memory''
          (args_of (Some ''github_token'') (Some ''ghp_abc123xyz'')) 7 cached_world"
  have res: "fst r = ''Saved: github_token''" and clk: "clock (snd r) = 1000000"
    by (simp_all add: r_def executeTool_def save_memory_def args_of_def validateKey_github
          not_blank_ghp isDuplicate_def entry_def cached_world_def world0_def setAll_def
          store_call_def suspend_def env_plain_def env_of_def CACHE_TTL_def Let_def)
  have saved: "executeTool env_plain ''save_memory''
          (args_of (Some ''github_token'') (Some ''ghp_abc123xyz'')) 7 cached_world
        = (''Saved: github_token'', snd r)"
    using res by (simp add: r_def prod_eq_iff)
  have fr: "fresh (clock (snd r)) 7 (cache cached_world)"
    by (simp add: clk fresh_def cached_world_def setAll_def CACHE_TTL_def)
  have soon: "clock (snd r) - clock (snd r) \<le> CACHE_TTL"
    by (simp add: CACHE_TTL_def)
  from save_then_get_from_cache [OF saved, of "clock (snd r)"] fr soon
  have "executeTool env_plain ''get_memory'' (args_of (Some ''github_token'') None) 7 (snd r)
          = (''github_token: ghp_abc123xyz'', snd r)"
    by simp
  with res fr show ?thesis by (simp add: r_def)
qed

section \<open>The completion client\<close>

lemma pick_total:
  assumes "pool_ok p"
  shows "\<exists>k p1. pick now p = Inr (Some k, p1) \<and> k \<in> set (keys p) \<and>
           keys p1 = keys p \<and> state p1 = state p \<and> pool_ok p1"
proof (cases "\<exists>k\<in>set (keys p). eligible now p k")
  case True
  from pick_eligible [OF assms True] obtain i where
    i: "i < length (keys p)"
       "pick now p = Inr (Some (at_offset p i),
          p\<lparr>idx := ((idx p + i) mod length (keys p) + 1) mod length (keys p)\<rparr>)"
    by blast
  have "pool_ok (p\<lparr>idx := ((idx p + i) mod length (keys p) + 1) mod length (keys p)\<rparr>)"
    using assms by (simp add: pool_ok_def)
  with i at_offset_mem [OF assms, of i] show ?thesis by simp
next
  case False
  then have "\<forall>k\<in>set (keys p). \<not> eligible now p k" by blast
  from pick_fallback [OF assms this] obtain m where
    "m < length (keys p)" "pick now p = Inr (Some (keys p ! m), p)"
    by blast
  with assms show ?thesis by simp
qed


lemma await_cooldown_frame:
  "llm_requests (await_cooldown env k w) = llm_requests w \<and>
   apiKeys (await_cooldown env k w) = apiKeys w \<and>
   db_requests (await_cooldown env k w) = db_requests w"
  by (simp add: await_cooldown_def sleep_def suspend_def Let_def)


lemma match_limit: "match_retry limit_message = Some ''7.66''"
  by (simp add: limit_message_def toLowerCase_def toLowerCase_char_def hint_char_def
        digit_char_def Let_def)

lemma parseFloat_766: "parseFloat ''7.66'' = Num (766 / 100)"
  by (simp add: parseFloat_def digit_char_def digits_value_def)

lemma cooldown_limit: "cooldown_of limit_message n = Num 8160"
  by (simp add: cooldown_of_def match_limit parseFloat_766)

lemma pool_ok_fresh: "pool_ok fresh_pool"
  by (simp add: pool_ok_def fresh_pool_def)



section \<open>Evaluation on examples\<close>

lemmas world_steps =
  suspend_def sleep_def store_call_def request_def push_def pushHistory_def getHistory_def
  await_cooldown_def waitTime_opt_def waitTime_def js_pos_def block_opt_def block_def
  resetFailures_opt_def resetFailures_def server_error_def num_of_int_def

lemmas example_defs =
  world0_def fresh_pool_def env_of_def plain_def failing_def calls_def args_of_def MODEL_def

lemmas config_defs =
  MAX_RETRIES_def MAX_ITERATIONS_def MAX_HISTORY_def RETRY_BASE_DELAY_def CACHE_TTL_def


section \<open>What the tools leave alone\<close>

lemma no_llm_refl: "no_llm w w"
  by (simp add: no_llm_def)

lemma no_llm_trans: "no_llm w w1 \<Longrightarrow> no_llm w1 w2 \<Longrightarrow> no_llm w w2"
  by (simp add: no_llm_def)

lemma no_llm_save_memory: "no_llm w (snd (save_memory env args u w))"
  by (simp add: no_llm_def save_memory_def store_call_def suspend_def rounds_def Let_def
           split: option.splits sum.splits prod.splits)

lemma no_llm_collect: "no_llm w (snd (collect_memories u ms results toSave w))"
proof (induction ms arbitrary: results toSave w)
  case Nil
  then show ?case by (simp add: no_llm_refl)
next
  case (Cons m ms)
  have step: "\<And>c rs sv. no_llm w (snd (collect_memories u ms rs sv (w\<lparr>cache := c\<rparr>)))"
  proof -
    fix c rs sv
    have "no_llm w (w\<lparr>cache := c\<rparr>)" by (simp add: no_llm_def rounds_def)
    then show "no_llm w (snd (collect_memories u ms rs sv (w\<lparr>cache := c\<rparr>)))"
      using Cons.IH no_llm_trans by blast
  qed
  show ?case
    by (simp add: Cons.IH step no_llm_refl Let_def split: option.splits sum.splits prod.splits)
qed

lemma no_llm_write: "no_llm w (snd (write_memories env u toSave results w))"
proof (induction toSave arbitrary: results w)
  case Nil
  then show ?case by (simp add: no_llm_refl)
next
  case (Cons kv toSave)
  obtain k v where kv: "kv = (k, v)" by (cases kv)
  show ?case
  proof (cases "store_call env (DbSave u k v) w")
    case (Pair r w1)
    have w1: "no_llm w w1"
      using Pair by (auto simp: no_llm_def store_call_def suspend_def rounds_def)
    show ?thesis
    proof (cases r)
      case None
      let ?w2 = "w1\<lparr>db := saveMemory u k v (db w1),
                cache := upsert (clock w1) u k v (cache w1)\<rparr>"
      have a: "no_llm w ?w2"
        using w1 by (simp add: no_llm_def rounds_def)
      have eq: "write_memories env u (kv # toSave) results w =
                  write_memories env u toSave (results @ [''Saved: '' @ k]) ?w2"
        using Pair None kv by simp
      show ?thesis
        unfolding eq by (rule no_llm_trans [OF a Cons.IH])
    next
      case (Some e)
      then show ?thesis using Pair kv w1 by simp
    qed
  qed
qed

lemma no_llm_save_memories: "no_llm w (snd (save_memories env args u w))"
proof -
  have "\<And>ms rs sv w1 w2 r. collect_memories u ms [] [] w = (Inr (rs, sv), w1) \<Longrightarrow>
          write_memories env u sv rs w1 = (r, w2) \<Longrightarrow> no_llm w w2"
  proof -
    fix ms rs sv w1 w2 r
    assume a: "collect_memories u ms [] [] w = (Inr (rs, sv), w1)"
      and b: "write_memories env u sv rs w1 = (r, w2)"
    have "no_llm w w1" using no_llm_collect [of w u ms "[]" "[]"] a by simp
    moreover have "no_llm w1 w2" using no_llm_write [of w1 env u sv rs] b by simp
    ultimately show "no_llm w w2" by (rule no_llm_trans)
  qed
  moreover have "\<And>ms e w1. collect_memories u ms [] [] w = (Inl e, w1) \<Longrightarrow> no_llm w w1"
    using no_llm_collect [of w u _ "[]" "[]"] by (metis snd_conv)
  ultimately show ?thesis
    by (auto simp: save_memories_def no_llm_refl split: option.splits sum.splits prod.splits)
qed

lemma no_llm_get_all: "no_llm w (snd (get_all_memories env u w))"
  by (simp add: no_llm_def get_all_memories_def store_call_def suspend_def rounds_def Let_def
           split: option.splits prod.splits)

lemma no_llm_get_stored: "no_llm w (snd (get_stored_memory env k u w))"
  by (simp add: no_llm_def get_stored_memory_def store_call_def suspend_def rounds_def Let_def
           split: option.splits prod.splits)

lemma no_llm_get_memory: "no_llm w (snd (get_memory env args u w))"
proof -
  have "\<And>c k. no_llm w (snd (get_stored_memory env k u (w\<lparr>cache := c\<rparr>)))"
  proof -
    fix c k
    have "no_llm w (w\<lparr>cache := c\<rparr>)" by (simp add: no_llm_def rounds_def)
    then show "no_llm w (snd (get_stored_memory env k u (w\<lparr>cache := c\<rparr>)))"
      using no_llm_get_stored no_llm_trans by blast
  qed
  moreover have "\<And>c. no_llm w (w\<lparr>cache := c\<rparr>)" by (simp add: no_llm_def rounds_def)
  ultimately show ?thesis
    by (simp add: get_memory_def no_llm_get_all Let_def split: option.splits prod.splits)
qed

lemma no_llm_search: "no_llm w (snd (search_memories env args u w))"
  by (simp add: no_llm_def search_memories_def store_call_def suspend_def rounds_def Let_def
           split: option.splits prod.splits)

lemma no_llm_delete: "no_llm w (snd (delete_memory env args u w))"
  by (simp add: no_llm_def delete_memory_def deleteMemory_def store_call_def suspend_def
        rounds_def Let_def split: option.splits prod.splits bool.splits)

lemma no_llm_executeTool: "no_llm w (snd (executeTool env name args u w))"
  by (simp add: executeTool_def no_llm_save_memory no_llm_save_memories no_llm_get_memory
        no_llm_search no_llm_delete no_llm_refl)

lemma no_llm_run_tools:
  "no_llm w (snd (snd (run_tools env u tcs messages toolResults w)))"
proof (induction tcs arbitrary: messages toolResults w)
  case Nil
  then show ?case by (simp add: no_llm_refl)
next
  case (Cons tc tcs)
  show ?case
  proof (cases "tc_arguments tc")
    case None
    then show ?thesis using Cons.IH by simp
  next
    case (Some args)
    obtain result w1 where e: "executeTool env (tc_name tc) args u w = (result, w1)"
      by (cases "executeTool env (tc_name tc) args u w")
    have a: "no_llm w w1" using no_llm_executeTool [of w env "tc_name tc" args u] e by simp
    have eq: "run_tools env u (tc # tcs) messages toolResults w =
                run_tools env u tcs (messages @ [ToolResult (tc_id tc) result])
                  (toolResults @ [result]) w1"
      using Some e by simp
    show ?thesis
      unfolding eq by (rule no_llm_trans [OF a Cons.IH])
  qed
qed

lemma length_run_tools:
  "length (fst (snd (run_tools env u tcs messages toolResults w)))
     = length toolResults + length tcs"
proof (induction tcs arbitrary: messages toolResults w)
  case Nil
  then show ?case by simp
next
  case (Cons tc tcs)
  show ?case
    by (cases "tc_arguments tc") (simp_all add: Cons.IH split: prod.splits)
qed

lemma no_llm_push: "no_llm w (push u r c w)"
  by (simp add: no_llm_def push_def rounds_def)

lemma no_llm_chat_start: "no_llm w (chat_start env rnd u m w)"
  by (simp add: no_llm_def chat_start_def push_def getAll_def entry_def store_call_def
        suspend_def rounds_def Let_def split: option.splits prod.splits)

lemma join_nl_nonempty: "xs \<noteq> [] \<Longrightarrow> \<forall>x\<in>set xs. x \<noteq> [] \<Longrightarrow> join_nl xs \<noteq> []"
  by (induction xs rule: join_nl.induct) auto

lemma collect_nonempty:
  "collect_memories u ms results toSave w = (Inr (rs, sv), w1) \<Longrightarrow>
   \<forall>r\<in>set results. r \<noteq> [] \<Longrightarrow> \<forall>r\<in>set rs. r \<noteq> []"
proof (induction ms arbitrary: results toSave w)
  case Nil
  then show ?case by simp
next
  case (Cons m ms)
  from Cons.prems show ?case
    by (auto simp: Let_def split: option.splits sum.splits prod.splits if_splits
             dest!: Cons.IH)
qed

lemma write_nonempty:
  "write_memories env u toSave results w = (Inr rs, w1) \<Longrightarrow>
   \<forall>r\<in>set results. r \<noteq> [] \<Longrightarrow> \<forall>r\<in>set rs. r \<noteq> []"
proof (induction toSave arbitrary: results w)
  case Nil
  then show ?case by simp
next
  case (Cons kv toSave)
  obtain k v where kv: "kv = (k, v)" by (cases kv)
  from Cons.prems show ?case
    by (auto simp: kv split: option.splits prod.splits dest!: Cons.IH)
qed

lemma save_memories_nonempty: "fst (save_memories env args u w) \<noteq> []"
proof -
  have "\<And>ms rs sv w1 rs' w2.
          collect_memories u ms [] [] w = (Inr (rs, sv), w1) \<Longrightarrow>
          write_memories env u sv rs w1 = (Inr rs', w2) \<Longrightarrow> rs' \<noteq> [] \<Longrightarrow>
          join_nl rs' \<noteq> []"
  proof -
    fix ms rs sv w1 rs' w2
    assume a: "collect_memories u ms [] [] w = (Inr (rs, sv), w1)"
      and b: "write_memories env u sv rs w1 = (Inr rs', w2)" and c: "rs' \<noteq> []"
    have "\<forall>r\<in>set rs. r \<noteq> []" using collect_nonempty [OF a] by simp
    then have "\<forall>r\<in>set rs'. r \<noteq> []" using write_nonempty [OF b] by simp
    with c show "join_nl rs' \<noteq> []" by (rule join_nl_nonempty)
  qed
  then show ?thesis
    by (auto simp: save_memories_def exec_error_def split: option.splits sum.splits prod.splits)
qed

lemma shown_nonempty: "ms \<noteq> [] \<Longrightarrow> join_nl (map show_memory ms) \<noteq> []"
  by (rule join_nl_nonempty) (auto simp: show_memory_def)

lemma get_all_nonempty: "fst (get_all_memories env u w) \<noteq> []"
  by (simp add: get_all_memories_def exec_error_def shown_nonempty Let_def
           split: option.splits prod.splits)

lemma get_stored_nonempty: "fst (get_stored_memory env k u w) \<noteq> []"
  by (simp add: get_stored_memory_def exec_error_def show_memory_def
           split: option.splits prod.splits)

lemma executeTool_nonempty: "fst (executeTool env name args u w) \<noteq> []"
proof -
  have "fst (save_memory env args u w) \<noteq> []"
    by (simp add: save_memory_def exec_error_def Let_def
             split: option.splits sum.splits prod.splits)
  moreover have "fst (get_memory env args u w) \<noteq> []"
    by (simp add: get_memory_def get_all_nonempty get_stored_nonempty Let_def
             split: option.splits prod.splits)
  moreover have "fst (search_memories env args u w) \<noteq> []"
    by (simp add: search_memories_def exec_error_def shown_nonempty Let_def
             split: option.splits prod.splits)
  moreover have "fst (delete_memory env args u w) \<noteq> []"
    by (simp add: delete_memory_def exec_error_def Let_def
             split: option.splits prod.splits bool.splits)
  ultimately show ?thesis
    by (simp add: executeTool_def save_memories_nonempty)
qed

lemma run_tools_nonempty:
  "\<forall>r\<in>set toolResults. r \<noteq> [] \<Longrightarrow>
   \<forall>r\<in>set (fst (snd (run_tools env u tcs messages toolResults w))). r \<noteq> []"
proof (induction tcs arbitrary: messages toolResults w)
  case Nil
  then show ?case by simp
next
  case (Cons tc tcs)
  show ?case
  proof (cases "tc_arguments tc")
    case None
    have "\<forall>r\<in>set (toolResults @ [''Error: invalid arguments format'']). r \<noteq> []"
      using Cons.prems by simp
    from Cons.IH [OF this] show ?thesis using None by simp
  next
    case (Some args)
    obtain result w1 where e: "executeTool env (tc_name tc) args u w = (result, w1)"
      by (cases "executeTool env (tc_name tc) args u w")
    have "result \<noteq> []" using executeTool_nonempty [of env "tc_name tc" args u w] e by simp
    then have "\<forall>r\<in>set (toolResults @ [result]). r \<noteq> []"
      using Cons.prems by simp
    from Cons.IH [OF this] show ?thesis using Some e by simp
  qed
qed

lemma rounds_sleep: "rounds (sleep env d w) = rounds w"
  by (simp add: sleep_def suspend_def rounds_def)

lemma rounds_await_cooldown: "rounds (await_cooldown env k w) = rounds w"
  by (simp add: await_cooldown_def rounds_sleep Let_def)

lemma rounds_apiKeys: "rounds (w\<lparr>apiKeys := p\<rparr>) = rounds w"
  by (simp add: rounds_def)

lemma rounds_request: "rounds (snd (request env k messages tools w)) = rounds w"
  by (simp add: request_def suspend_def rounds_def)

lemma rounds_groqChat_from:
  "rounds (snd (groqChat_from env messages tools attempt lastErr w)) = rounds w"
proof (induction "Suc MAX_RETRIES - attempt" arbitrary: attempt lastErr w)
  case 0
  then show ?case by (subst groqChat_from.simps) simp
next
  case (Suc n)
  have ih: "\<And>e w'. rounds (snd (groqChat_from env messages tools (Suc attempt) e w')) = rounds w'"
    using Suc.hyps(2) by (intro Suc.hyps(1)) simp
  show ?case
  proof (cases "pick (clock w) (apiKeys w)")
    case (Inl e)
    then show ?thesis by (subst groqChat_from.simps) simp
  next
    case (Inr kp)
    obtain apiKey p1 where kp: "kp = (apiKey, p1)" by (cases kp)
    define w2 where "w2 = await_cooldown env apiKey (w\<lparr>apiKeys := p1\<rparr>)"
    have r2: "rounds w2 = rounds w"
      by (simp add: w2_def rounds_await_cooldown rounds_apiKeys)
    obtain reply w3 where rq: "request env apiKey messages tools w2 = (reply, w3)"
      by (cases "request env apiKey messages tools w2")
    have r3: "rounds w3 = rounds w"
      using rounds_request [of env apiKey messages tools w2] rq r2 by simp
    show ?thesis
      using Inr kp rq r3
      by (subst groqChat_from.simps)
         (simp add: w2_def [symmetric] ih rounds_sleep rounds_apiKeys Let_def split: sum.splits)
  qed
qed

section \<open>The conversation loop\<close>

lemma pool_ok_resetFailures: "pool_ok p \<Longrightarrow> pool_ok (resetFailures k p)"
  by (auto simp: pool_ok_def resetFailures_def list_all_iff split: option.splits)

lemma groqChat_success:
  assumes "pool_ok (apiKeys w)" and "llm_reply env (llm_requests w) = Inr c"
  shows "\<exists>w1. groqChat env messages tools w = (Inr c, w1) \<and>
              llm_requests w1 = llm_requests w + 1 \<and> pool_ok (apiKeys w1) \<and>
              rounds w1 = rounds w"
proof -
  from pick_total [OF assms(1), of "clock w"] obtain k p1 where
    p: "pick (clock w) (apiKeys w) = Inr (Some k, p1)" "pool_ok p1"
    by blast
  define w2 where "w2 = await_cooldown env (Some k) (w\<lparr>apiKeys := p1\<rparr>)"
  have w2: "llm_requests w2 = llm_requests w" "apiKeys w2 = p1" "rounds w2 = rounds w"
    by (simp_all add: w2_def await_cooldown_frame rounds_await_cooldown rounds_apiKeys)
  define w3 where "w3 = snd (request env (Some k) messages tools w2)"
  have req: "request env (Some k) messages tools w2 = (Inr c, w3)"
    using assms(2) w2 by (simp add: w3_def request_def)
  have w3: "llm_requests w3 = llm_requests w + 1" "apiKeys w3 = p1" "rounds w3 = rounds w"
    using w2 by (simp_all add: w3_def request_def suspend_def rounds_def)
  have run: "groqChat env messages tools w =
               (Inr c, w3\<lparr>apiKeys := resetFailures k (apiKeys w3)\<rparr>)"
    unfolding groqChat_def using p(1) req
    by (subst groqChat_from.simps)
       (simp add: MAX_RETRIES_def w2_def [symmetric] resetFailures_opt_def)
  show ?thesis
    using run w3 p(2) by (simp add: pool_ok_resetFailures rounds_apiKeys)
qed

lemma rounds_groqChat: "rounds (snd (groqChat env messages tools w)) = rounds w"
  by (simp add: groqChat_def rounds_groqChat_from)

lemma rounds_log: "rounds (w\<lparr>trace := trace w @ [LogIteration i]\<rparr>) = rounds w + 1"
  by (simp add: rounds_def)

lemma rounds_push: "rounds (push u r c w) = rounds w"
  by (simp add: push_def rounds_def)

lemma rounds_run_tools:
  "rounds (snd (snd (run_tools env u tcs messages toolResults w))) = rounds w"
  using no_llm_run_tools [of w env u tcs messages toolResults] by (simp add: no_llm_def)

lemma rounds_chat_loop:
  "rounds (snd (chat_loop env strip u messages iter w)) \<le> rounds w + (Suc MAX_ITERATIONS - iter)"
proof (induction "Suc MAX_ITERATIONS - iter" arbitrary: iter messages w)
  case 0
  then show ?case by (subst chat_loop.simps) simp
next
  case (Suc n)
  have le: "iter \<le> MAX_ITERATIONS" using Suc.hyps(2) by simp
  have ih: "\<And>ms w'. rounds (snd (chat_loop env strip u ms (Suc iter) w'))
                       \<le> rounds w' + (MAX_ITERATIONS - iter)"
    using Suc.hyps(1) [of "Suc iter"] Suc.hyps(2) by simp
  define wl where "wl = w\<lparr>trace := trace w @ [LogIteration iter]\<rparr>"
  obtain r w1 where g: "groqChat env messages True wl = (r, w1)"
    by (cases "groqChat env messages True wl")
  have r1: "rounds w1 = rounds w + 1"
    using rounds_groqChat [of env messages True wl] g by (simp add: wl_def rounds_log)
  show ?case
  proof (cases r)
    case (Inl err)
    obtain r2 w2 where f: "groqChat env (fallbackMessages u w1) False w1 = (r2, w2)"
      by (cases "groqChat env (fallbackMessages u w1) False w1")
    have r2: "rounds w2 = rounds w + 1"
      using rounds_groqChat [of env "fallbackMessages u w1" False w1] f r1 by simp
    show ?thesis
      using le g Inl f r1 r2
      by (subst chat_loop.simps)
         (auto simp: wl_def [symmetric] rounds_push Let_def split: sum.splits)
  next
    case (Inr msg)
    obtain ms' rs w2 where t: "run_tools env u (tool_calls msg)
        (messages @ [AssistantToolCalls (content msg) (tool_calls msg)]) [] w1 = (ms', rs, w2)"
      by (cases "run_tools env u (tool_calls msg)
        (messages @ [AssistantToolCalls (content msg) (tool_calls msg)]) [] w1") auto
    have r2: "rounds w2 = rounds w + 1"
      using rounds_run_tools [of env u "tool_calls msg"
          "messages @ [AssistantToolCalls (content msg) (tool_calls msg)]" "[]" w1] t r1
      by simp
    have "rounds (snd (chat_loop env strip u ms' (Suc iter) w2)) \<le> rounds w + (Suc MAX_ITERATIONS - iter)"
      using ih [of ms' w2] r2 le by simp
    then show ?thesis
      using le g Inr t r1 r2
      by (subst chat_loop.simps)
         (auto simp: wl_def [symmetric] rounds_push Let_def)
  qed
qed

lemma final_round:
  assumes "groqChat env messages True (w\<lparr>trace := trace w @ [LogIteration MAX_ITERATIONS]\<rparr>)
             = (Inr msg, w1)"
    and "tool_calls msg \<noteq> []"
    and "run_tools env u (tool_calls msg)
           (messages @ [AssistantToolCalls (content msg) (tool_calls msg)]) [] w1
         = (messages', toolResults, w2)"
  shows "chat_loop env strip u messages MAX_ITERATIONS w = (Break (join_nl toolResults), w2) \<and>
         join_nl toolResults \<noteq> [] \<and> llm_requests w2 = llm_requests w1"
proof -
  have len: "length toolResults = length (tool_calls msg)"
    using length_run_tools [of env u "tool_calls msg"
        "messages @ [AssistantToolCalls (content msg) (tool_calls msg)]" "[]" w1] assms(3)
    by simp
  then have ne: "toolResults \<noteq> []" using assms(2) by auto
  have "\<forall>r\<in>set toolResults. r \<noteq> []"
    using run_tools_nonempty [of "[]" env u "tool_calls msg"
        "messages @ [AssistantToolCalls (content msg) (tool_calls msg)]" w1] assms(3)
    by simp
  with ne have j: "join_nl toolResults \<noteq> []" by (rule join_nl_nonempty)
  have n: "llm_requests w2 = llm_requests w1"
    using no_llm_run_tools [of w1 env u "tool_calls msg"
        "messages @ [AssistantToolCalls (content msg) (tool_calls msg)]" "[]"] assms(3)
    by (simp add: no_llm_def)
  have "chat_loop env strip u messages MAX_ITERATIONS w = (Break (join_nl toolResults), w2)"
    using assms ne by (subst chat_loop.simps) simp
  with j n show ?thesis by simp
qed

lemma loop_always_tools:
  assumes "always_tools env" and "pool_ok (apiKeys w)" and "iter \<le> MAX_ITERATIONS"
  shows "\<exists>msgs5 w5 msg w5' msgs' R w6.
           groqChat env msgs5 True (w5\<lparr>trace := trace w5 @ [LogIteration MAX_ITERATIONS]\<rparr>)
             = (Inr msg, w5') \<and>
           tool_calls msg \<noteq> [] \<and>
           run_tools env u (tool_calls msg)
             (msgs5 @ [AssistantToolCalls (content msg) (tool_calls msg)]) [] w5'
             = (msgs', R, w6) \<and>
           join_nl R \<noteq> [] \<and>
           chat_loop env strip u messages iter w = (Break (join_nl R), w6) \<and>
           rounds w6 = rounds w + (Suc MAX_ITERATIONS - iter) \<and>
           llm_requests w6 = llm_requests w + (Suc MAX_ITERATIONS - iter)"
  using assms(2,3)
proof (induction "MAX_ITERATIONS - iter" arbitrary: iter messages w)
  case 0
  then have it: "iter = MAX_ITERATIONS" by simp
  define wl where "wl = w\<lparr>trace := trace w @ [LogIteration MAX_ITERATIONS]\<rparr>"
  from assms(1) obtain c where c: "llm_reply env (llm_requests wl) = Inr c" "tool_calls c \<noteq> []"
    unfolding always_tools_def by blast
  have "pool_ok (apiKeys wl)" using "0.prems"(1) by (simp add: wl_def)
  from groqChat_success [OF this c(1), of messages True] obtain w1 where
    g: "groqChat env messages True wl = (Inr c, w1)"
    and w1: "llm_requests w1 = llm_requests wl + 1" "rounds w1 = rounds wl"
    by blast
  obtain ms' R w2 where t: "run_tools env u (tool_calls c)
        (messages @ [AssistantToolCalls (content c) (tool_calls c)]) [] w1 = (ms', R, w2)"
    by (cases "run_tools env u (tool_calls c)
        (messages @ [AssistantToolCalls (content c) (tool_calls c)]) [] w1") auto
  from final_round [OF g [unfolded wl_def] c(2) t, of strip]
  have f: "chat_loop env strip u messages MAX_ITERATIONS w = (Break (join_nl R), w2)"
    "join_nl R \<noteq> []" "llm_requests w2 = llm_requests w1"
    by simp_all
  have r2: "rounds w2 = rounds w1"
    using rounds_run_tools [of env u "tool_calls c"
        "messages @ [AssistantToolCalls (content c) (tool_calls c)]" "[]" w1] t by simp
  have "groqChat env messages True (w\<lparr>trace := trace w @ [LogIteration MAX_ITERATIONS]\<rparr>)
             = (Inr c, w1) \<and>
           tool_calls c \<noteq> [] \<and>
           run_tools env u (tool_calls c)
             (messages @ [AssistantToolCalls (content c) (tool_calls c)]) [] w1
             = (ms', R, w2) \<and>
           join_nl R \<noteq> [] \<and>
           chat_loop env strip u messages iter w = (Break (join_nl R), w2) \<and>
           rounds w2 = rounds w + (Suc MAX_ITERATIONS - iter) \<and>
           llm_requests w2 = llm_requests w + (Suc MAX_ITERATIONS - iter)"
    using g c(2) t f r2 w1 it by (simp add: wl_def rounds_log)
  then show ?case by blast
next
  case (Suc n)
  then have lt: "iter < MAX_ITERATIONS" by simp
  define wl where "wl = w\<lparr>trace := trace w @ [LogIteration iter]\<rparr>"
  from assms(1) obtain c where c: "llm_reply env (llm_requests wl) = Inr c" "tool_calls c \<noteq> []"
    unfolding always_tools_def by blast
  have "pool_ok (apiKeys wl)" using Suc.prems(1) by (simp add: wl_def)
  from groqChat_success [OF this c(1), of messages True] obtain w1 where
    g: "groqChat env messages True wl = (Inr c, w1)"
    and w1: "llm_requests w1 = llm_requests wl + 1" "rounds w1 = rounds wl" "pool_ok (apiKeys w1)"
    by blast
  obtain ms' R w2 where t: "run_tools env u (tool_calls c)
        (messages @ [AssistantToolCalls (content c) (tool_calls c)]) [] w1 = (ms', R, w2)"
    by (cases "run_tools env u (tool_calls c)
        (messages @ [AssistantToolCalls (content c) (tool_calls c)]) [] w1") auto
  have fr: "no_llm w1 w2"
    using no_llm_run_tools [of w1 env u "tool_calls c"
        "messages @ [AssistantToolCalls (content c) (tool_calls c)]" "[]"] t by simp
  then have ok2: "pool_ok (apiKeys w2)" using w1(3) by (simp add: no_llm_def)
  have step: "chat_loop env strip u messages iter w = chat_loop env strip u ms' (Suc iter) w2"
    using lt g c(2) t by (subst chat_loop.simps) (simp add: wl_def [symmetric])
  have n: "n = MAX_ITERATIONS - Suc iter" using Suc.hyps(2) by simp
  from Suc.hyps(1) [OF n ok2, of ms'] lt obtain msgs5 w5 msg w5' msgs' R' w6 where
    "groqChat env msgs5 True (w5\<lparr>trace := trace w5 @ [LogIteration MAX_ITERATIONS]\<rparr>)
             = (Inr msg, w5')"
    "tool_calls msg \<noteq> []"
    "run_tools env u (tool_calls msg)
             (msgs5 @ [AssistantToolCalls (content msg) (tool_calls msg)]) [] w5'
             = (msgs', R', w6)"
    "join_nl R' \<noteq> []"
    "chat_loop env strip u ms' (Suc iter) w2 = (Break (join_nl R'), w6)"
    and r6: "rounds w6 = rounds w2 + (Suc MAX_ITERATIONS - Suc iter)"
    and l6: "llm_requests w6 = llm_requests w2 + (Suc MAX_ITERATIONS - Suc iter)"
    by auto
  moreover have w2: "rounds w2 = rounds w + 1" "llm_requests w2 = llm_requests w + 1"
    using fr w1 by (simp_all add: no_llm_def wl_def rounds_log)
  moreover have "rounds w6 = rounds w + (Suc MAX_ITERATIONS - iter)"
    using r6 w2(1) lt by arith
  moreover have "llm_requests w6 = llm_requests w + (Suc MAX_ITERATIONS - iter)"
    using l6 w2(2) lt by arith
  ultimately have "groqChat env msgs5 True (w5\<lparr>trace := trace w5 @ [LogIteration MAX_ITERATIONS]\<rparr>)
             = (Inr msg, w5') \<and>
           tool_calls msg \<noteq> [] \<and>
           run_tools env u (tool_calls msg)
             (msgs5 @ [AssistantToolCalls (content msg) (tool_calls msg)]) [] w5'
             = (msgs', R', w6) \<and>
           join_nl R' \<noteq> [] \<and>
           chat_loop env strip u messages iter w = (Break (join_nl R'), w6) \<and>
           rounds w6 = rounds w + (Suc MAX_ITERATIONS - iter) \<and>
           llm_requests w6 = llm_requests w + (Suc MAX_ITERATIONS - iter)"
    using step lt by simp
  then show ?case by blast
qed

text \<open>
  C2. \<^verbatim>\<open>chat\<close> starts at most five rounds (\<^verbatim>\<open>MAX_ITERATIONS\<close>), whatever the provider and
  the store do. When the round that \<^verbatim>\<open>chat\<close> logs as the fifth gets a completion with tool
  calls, the loop ends there: \<^verbatim>\<open>finalResponse\<close> is the tool results of that round joined by
  line feeds, it is not empty, and no request follows the tools. When the provider
  answers every request with tool calls, \<^verbatim>\<open>chat\<close> runs exactly five rounds with exactly
  five requests, appends that text to the history and returns it through
  \<^verbatim>\<open>stripMarkdown\<close>.
\<close>

theorem chat_rounds_bounded:
  "rounds (snd (chat env strip rnd u m w)) \<le> rounds w + MAX_ITERATIONS \<and>
   (\<forall>messages w0 msg w1 messages' toolResults w2.
      groqChat env messages True (w0\<lparr>trace := trace w0 @ [LogIteration MAX_ITERATIONS]\<rparr>)
        = (Inr msg, w1) \<longrightarrow>
      tool_calls msg \<noteq> [] \<longrightarrow>
      run_tools env u (tool_calls msg)
        (messages @ [AssistantToolCalls (content msg) (tool_calls msg)]) [] w1
        = (messages', toolResults, w2) \<longrightarrow>
      chat_loop env strip u messages MAX_ITERATIONS w0 = (Break (join_nl toolResults), w2) \<and>
      join_nl toolResults \<noteq> [] \<and> llm_requests w2 = llm_requests w1) \<and>
   (always_tools env \<longrightarrow> pool_ok (apiKeys w) \<longrightarrow>
      (\<exists>messages w0 msg w1 messages' toolResults w2.
         groqChat env messages True (w0\<lparr>trace := trace w0 @ [LogIteration MAX_ITERATIONS]\<rparr>)
           = (Inr msg, w1) \<and>
         tool_calls msg \<noteq> [] \<and>
         run_tools env u (tool_calls msg)
           (messages @ [AssistantToolCalls (content msg) (tool_calls msg)]) [] w1
           = (messages', toolResults, w2) \<and>
         chat env strip rnd u m w =
           (Inr (strip (join_nl toolResults)),
            push u ''assistant'' (join_nl toolResults) w2) \<and>
         rounds w2 = rounds w + MAX_ITERATIONS \<and>
         llm_requests w2 = llm_requests w + MAX_ITERATIONS))"
proof (intro conjI allI impI)
  define w0 where "w0 = chat_start env rnd u m w"
  define ms where "ms = ChatMsg ''system'' (SYSTEM_PROMPT env)
                     # map as_message (getHistory u (conversations w0))"
  have r0: "rounds w0 = rounds w"
    using no_llm_chat_start [of w env rnd u m] by (simp add: w0_def no_llm_def)
  obtain ex w1 where l: "chat_loop env strip u ms 1 w0 = (ex, w1)"
    by (cases "chat_loop env strip u ms 1 w0")
  have "rounds w1 \<le> rounds w + MAX_ITERATIONS"
    using rounds_chat_loop [of env strip u ms 1 w0] r0 l by simp
  then show "rounds (snd (chat env strip rnd u m w)) \<le> rounds w + MAX_ITERATIONS"
    using l
    by (cases ex)
       (simp_all add: chat_def w0_def [symmetric] ms_def [symmetric] rounds_push Let_def)
next
  fix messages w0 msg w1 messages' toolResults w2
  assume "groqChat env messages True (w0\<lparr>trace := trace w0 @ [LogIteration MAX_ITERATIONS]\<rparr>)
        = (Inr msg, w1)" "tool_calls msg \<noteq> []"
      "run_tools env u (tool_calls msg)
        (messages @ [AssistantToolCalls (content msg) (tool_calls msg)]) [] w1
        = (messages', toolResults, w2)"
  from final_round [OF this, of strip]
  show "chat_loop env strip u messages MAX_ITERATIONS w0 = (Break (join_nl toolResults), w2)"
    "join_nl toolResults \<noteq> []" "llm_requests w2 = llm_requests w1"
    by simp_all
next
  assume at: "always_tools env" and ok: "pool_ok (apiKeys w)"
  define w0 where "w0 = chat_start env rnd u m w"
  define ms where "ms = ChatMsg ''system'' (SYSTEM_PROMPT env)
                     # map as_message (getHistory u (conversations w0))"
  have fr: "no_llm w w0" by (simp add: w0_def no_llm_chat_start)
  then have ok0: "pool_ok (apiKeys w0)" using ok by (simp add: no_llm_def)
  have one: "1 \<le> MAX_ITERATIONS" by (simp add: MAX_ITERATIONS_def)
  from loop_always_tools [OF at ok0 one, of u strip ms]
  obtain msgs5 w5 msg w5' msgs' R w6 where
    a: "groqChat env msgs5 True (w5\<lparr>trace := trace w5 @ [LogIteration MAX_ITERATIONS]\<rparr>)
             = (Inr msg, w5')"
       "tool_calls msg \<noteq> []"
       "run_tools env u (tool_calls msg)
             (msgs5 @ [AssistantToolCalls (content msg) (tool_calls msg)]) [] w5'
             = (msgs', R, w6)"
    and j: "join_nl R \<noteq> []"
    and l: "chat_loop env strip u ms 1 w0 = (Break (join_nl R), w6)"
    and n: "rounds w6 = rounds w0 + (Suc MAX_ITERATIONS - 1)"
       "llm_requests w6 = llm_requests w0 + (Suc MAX_ITERATIONS - 1)"
    by blast
  have c: "chat env strip rnd u m w =
           (Inr (strip (join_nl R)), push u ''assistant'' (join_nl R) w6)"
    using l j by (simp add: chat_def w0_def [symmetric] ms_def [symmetric] Let_def)
  have "rounds w6 = rounds w + MAX_ITERATIONS" "llm_requests w6 = llm_requests w + MAX_ITERATIONS"
    using n fr by (simp_all add: no_llm_def)
  with a c show "\<exists>messages w0 msg w1 messages' toolResults w2.
         groqChat env messages True (w0\<lparr>trace := trace w0 @ [LogIteration MAX_ITERATIONS]\<rparr>)
           = (Inr msg, w1) \<and>
         tool_calls msg \<noteq> [] \<and>
         run_tools env u (tool_calls msg)
           (messages @ [AssistantToolCalls (content msg) (tool_calls msg)]) [] w1
           = (messages', toolResults, w2) \<and>
         chat env strip rnd u m w =
           (Inr (strip (join_nl toolResults)),
            push u ''assistant'' (join_nl toolResults) w2) \<and>
         rounds w2 = rounds w + MAX_ITERATIONS \<and>
         llm_requests w2 = llm_requests w + MAX_ITERATIONS"
    by blast
qed

lemma chat_tools_answer:
  "fst (chat env_tools id (1 / 2) 7 ''hi'' world0) =
     Inr (''Already saved: github_token'' @ [CHR 0x0A] @ ''github_token: ghp_abc123xyz'')"
  by (simp add: chat_def chat_start_def chat_loop.simps groqChat_def groqChat_from.simps
        pick_def pick_scan.simps getAll_def entry_def setAll_def listMemories_def as_message_def
        executeTool_def save_memory_def get_memory_def validateKey_github normalizeKey_github
        not_blank_ghp isDuplicate_def upsert_def get_def saveMemory_def is_row_def
        env_tools_def world_steps example_defs config_defs Let_def)

theorem chat_rounds_bounded_witness:
  "always_tools env_tools \<and> pool_ok (apiKeys world0) \<and>
   fst (chat env_tools id (1 / 2) 7 ''hi'' world0) =
     Inr (''Already saved: github_token'' @ [CHR 0x0A] @ ''github_token: ghp_abc123xyz'') \<and>
   rounds (snd (chat env_tools id (1 / 2) 7 ''hi'' world0)) = 5 \<and>
   llm_requests (snd (chat env_tools id (1 / 2) 7 ''hi'' world0)) = 5"
proof -
  have at: "always_tools env_tools"
    by (simp add: always_tools_def env_tools_def env_of_def calls_def)
  have ok: "pool_ok (apiKeys world0)" by (simp add: world0_def pool_ok_fresh)
  from chat_rounds_bounded [of env_tools id "1 / 2" 7 "''hi''" world0] at ok
  obtain toolResults w2 where
    c: "chat env_tools id (1 / 2) 7 ''hi'' world0 =
           (Inr (id (join_nl toolResults)), push 7 ''assistant'' (join_nl toolResults) w2)"
    and n: "rounds w2 = rounds world0 + MAX_ITERATIONS"
           "llm_requests w2 = llm_requests world0 + MAX_ITERATIONS"
    by blast
  have r0: "rounds world0 = 0" by (simp add: world0_def rounds_def)
  have "rounds (snd (chat env_tools id (1 / 2) 7 ''hi'' world0)) = 5"
    using c n r0 by (simp add: rounds_push MAX_ITERATIONS_def)
  moreover have "llm_requests (snd (chat env_tools id (1 / 2) 7 ''hi'' world0)) = 5"
    using c n by (simp add: push_def world0_def MAX_ITERATIONS_def)
  ultimately show ?thesis using at ok chat_tools_answer by simp
qed


section \<open>The fallback call\<close>

text \<open>
  C3. Every request that \<^verbatim>\<open>groqChat\<close> sends carries \<^verbatim>\<open>CONFIG.MODEL\<close>, the fallback call
  of \<^verbatim>\<open>chat\<close> included: when the provider answers the three attempts of the first round
  with the status 429 and then with a text, the fourth request, sent without tools, with
  the reduced instruction and the last turns of the history, names the primary model
  \<^verbatim>\<open>openai/gpt-oss-120b\<close> and not \<^verbatim>\<open>CONFIG.FALLBACK_MODEL\<close>; its text is what \<^verbatim>\<open>chat\<close>
  returns.
\<close>

theorem fallback_uses_primary_model:
  "trace (snd (request env k messages tools w)) = trace w @ [Request k (MODEL env) messages tools] \<and>
   fst (chat env_recovering id (1 / 2) 7 ''hi'' world0) = Inr ''Back again'' \<and>
   trace (snd (chat env_recovering id (1 / 2) 7 ''hi'' world0)) =
     [DbList 7, LogIteration 1,
      Request (Some ''gsk_a'') ''openai/gpt-oss-120b''
        [ChatMsg ''system'' ''You are a memory assistant.'', ChatMsg ''user'' ''hi''] True,
      Sleep (Num 2000),
      Request (Some ''gsk_b'') ''openai/gpt-oss-120b''
        [ChatMsg ''system'' ''You are a memory assistant.'', ChatMsg ''user'' ''hi''] True,
      Sleep (Num 4000),
      Request (Some ''gsk_c'') ''openai/gpt-oss-120b''
        [ChatMsg ''system'' ''You are a memory assistant.'', ChatMsg ''user'' ''hi''] True,
      Sleep (Num 2000),
      Request (Some ''gsk_a'') ''openai/gpt-oss-120b''
        [ChatMsg ''system''
           ''You are a helpful memory assistant. Answer from conversation context. Keep it short, no markdown.'',
         ChatMsg ''user'' ''hi''] False] \<and>
   FALLBACK_MODEL \<noteq> ''openai/gpt-oss-120b''"
  by (simp add: chat_def chat_start_def chat_loop.simps groqChat_def groqChat_from.simps
        pick_def pick_scan.simps getAll_def entry_def setAll_def listMemories_def as_message_def
        fallbackMessages_def cooldown_of_def toLowerCase_def toLowerCase_char_def
        FALLBACK_MODEL_def env_recovering_def world_steps example_defs config_defs Let_def)

section \<open>A malformed request\<close>

lemma chat_start_frame:
  "apiKeys (chat_start env rnd u m w) = apiKeys w \<and>
   llm_requests (chat_start env rnd u m w) = llm_requests w"
  by (simp add: chat_start_def push_def getAll_def entry_def store_call_def suspend_def Let_def
           split: option.splits prod.splits)

lemma groqChat_bad_request:
  assumes "pool_ok (apiKeys w)" and "llm_reply env (llm_requests w) = Inl err"
    and "status err = Some 400"
  shows "\<exists>w'. groqChat env messages tools w =
                 (Inl (JsError None ''Invalid request format. Please try rephrasing.''), w') \<and>
              llm_requests w' = llm_requests w + 1"
proof -
  from pick_total [OF assms(1), of "clock w"] obtain k p1 where
    p: "pick (clock w) (apiKeys w) = Inr (Some k, p1)"
    by blast
  have "llm_requests (await_cooldown env (Some k) (w\<lparr>apiKeys := p1\<rparr>)) = llm_requests w"
    by (simp add: await_cooldown_frame)
  then show ?thesis
    using p assms(2,3) unfolding groqChat_def
    by (subst groqChat_from.simps)
       (simp add: MAX_RETRIES_def request_def suspend_def Let_def)
qed

lemma no_unavailable:
  "\<not> str_includes ''Invalid request format. Please try rephrasing.'' ''temporarily unavailable''"
  by simp

text \<open>
  C6. When the provider answers the request of a turn with the status 400, the request
  is not repeated: the handler sends exactly one request. \<^verbatim>\<open>groqChat\<close> throws the error
  \<^verbatim>\<open>Invalid request format. Please try rephrasing.\<close>, \<^verbatim>\<open>chat\<close> throws it on, and the reply
  that the handler sends to the user is the generic apology, since the message does not
  contain \<^verbatim>\<open>temporarily unavailable\<close>.
\<close>

theorem bad_request_generic_apology:
  assumes "pool_ok (apiKeys w)" and "take 1 text \<noteq> ''/''"
    and "llm_reply env (llm_requests w) = Inl err" and "status err = Some 400"
  shows "llm_requests (on_text env strip rnd u text w) = llm_requests w + 1 \<and>
         (\<exists>evs. trace (on_text env strip rnd u text w) = evs @ [Reply generic_apology])"
proof -
  define w2 where "w2 = suspend env
      (w\<lparr>stats := (stats w)(u \<mapsto> (case stats w u of None \<Rightarrow> 0 | Some n \<Rightarrow> n) + 1)\<rparr>)"
  define w0 where "w0 = chat_start env rnd u text w2"
  define ms where "ms = ChatMsg ''system'' (SYSTEM_PROMPT env)
                     # map as_message (getHistory u (conversations w0))"
  define wl where "wl = w0\<lparr>trace := trace w0 @ [LogIteration 1]\<rparr>"
  have fr: "apiKeys wl = apiKeys w" "llm_requests wl = llm_requests w"
    by (simp_all add: wl_def w0_def chat_start_frame w2_def suspend_def)
  from groqChat_bad_request [of wl env err ms True] assms fr obtain w' where
    g: "groqChat env ms True wl =
          (Inl (JsError None ''Invalid request format. Please try rephrasing.''), w')"
    and n: "llm_requests w' = llm_requests w + 1"
    by auto
  have loop: "chat_loop env strip u ms 1 w0 =
          (Thrown (JsError None ''Invalid request format. Please try rephrasing.''), w')"
    using g by (subst chat_loop.simps) (simp add: MAX_ITERATIONS_def wl_def server_error_def)
  have c: "chat env strip rnd u text w2 =
          (Inl (JsError None ''Invalid request format. Please try rephrasing.''), w')"
    using loop by (simp add: chat_def w0_def ms_def Let_def)
  have "on_text env strip rnd u text w = w'\<lparr>trace := trace w' @ [Reply generic_apology]\<rparr>"
    using assms(2) c by (simp add: on_text_def w2_def Let_def)
  with n show ?thesis by simp
qed

theorem bad_request_generic_apology_witness:
  "pool_ok (apiKeys world0) \<and> take 1 ''hello'' \<noteq> ''/'' \<and>
   llm_reply env_bad_request (llm_requests world0) = Inl (JsError (Some 400) ''Bad request'') \<and>
   status (JsError (Some 400) ''Bad request'') = Some 400 \<and>
   llm_requests (on_text env_bad_request id (1 / 2) 7 ''hello'' world0) = 1 \<and>
   trace (on_text env_bad_request id (1 / 2) 7 ''hello'' world0) =
     [DbList 7, LogIteration 1,
      Request (Some ''gsk_a'') ''openai/gpt-oss-120b''
        [ChatMsg ''system'' ''You are a memory assistant.'', ChatMsg ''user'' ''hello''] True,
      Reply ''Sorry, something went wrong. Please try again in a moment.'']"
proof -
  have h1: "pool_ok (apiKeys world0)" by (simp add: world0_def pool_ok_fresh)
  have h2: "take 1 ''hello'' \<noteq> ''/''" by simp
  have h3: "llm_reply env_bad_request (llm_requests world0)
              = Inl (JsError (Some 400) ''Bad request'')"
    by (simp add: env_bad_request_def example_defs)
  have h4: "status (JsError (Some 400) ''Bad request'') = Some 400" by simp
  from bad_request_generic_apology [OF h1 h2 h3 h4, of id "1 / 2" 7]
  have n: "llm_requests (on_text env_bad_request id (1 / 2) 7 ''hello'' world0) = 1"
    by (simp add: world0_def)
  have "trace (on_text env_bad_request id (1 / 2) 7 ''hello'' world0) =
     [DbList 7, LogIteration 1,
      Request (Some ''gsk_a'') ''openai/gpt-oss-120b''
        [ChatMsg ''system'' ''You are a memory assistant.'', ChatMsg ''user'' ''hello''] True,
      Reply ''Sorry, something went wrong. Please try again in a moment.'']"
    by (simp add: on_text_def chat_def chat_start_def chat_loop.simps groqChat_def
          groqChat_from.simps pick_def pick_scan.simps getAll_def entry_def setAll_def
          listMemories_def as_message_def env_bad_request_def generic_apology_def
          world_steps example_defs config_defs Let_def)
  with h1 h3 n show ?thesis by simp
qed


section \<open>The final answer in the history\<close>

lemma push_twice:
  "\<exists>h. conversations (push u r c (push u r c w)) u =
         Some (h @ [\<lparr>role = r, text_of = c, timestamp = clock w\<rparr>,
                    \<lparr>role = r, text_of = c, timestamp = clock w\<rparr>])"
proof -
  define h0 where "h0 = getHistory u (conversations w) @ [\<lparr>role = r, text_of = c, timestamp = clock w\<rparr>]"
  define h1 where "h1 = drop (length h0 - MAX_HISTORY) h0"
  define h2 where "h2 = h1 @ [\<lparr>role = r, text_of = c, timestamp = clock w\<rparr>]"
  have c2: "conversations (push u r c (push u r c w)) u = Some (drop (length h2 - MAX_HISTORY) h2)"
    by (simp add: push_def pushHistory_def getHistory_def h0_def h1_def h2_def Let_def)
  have l0: "h0 \<noteq> []" by (simp add: h0_def)
  have "h1 \<noteq> [] \<and> last h1 = \<lparr>role = r, text_of = c, timestamp = clock w\<rparr>"
    using l0 by (auto simp: h1_def h0_def MAX_HISTORY_def)
  then obtain b where b: "h1 = b @ [\<lparr>role = r, text_of = c, timestamp = clock w\<rparr>]"
    by (metis append_butlast_last_id)
  have "length h1 \<le> MAX_HISTORY" by (simp add: h1_def)
  then have "length h2 - MAX_HISTORY \<le> length b"
    by (simp add: h2_def b MAX_HISTORY_def)
  then have "drop (length h2 - MAX_HISTORY) h2 =
        drop (length h2 - MAX_HISTORY) b @ [\<lparr>role = r, text_of = c, timestamp = clock w\<rparr>,
                    \<lparr>role = r, text_of = c, timestamp = clock w\<rparr>]"
    by (simp add: h2_def b)
  with c2 have "conversations (push u r c (push u r c w)) u =
         Some (drop (length h2 - MAX_HISTORY) b @
                 [\<lparr>role = r, text_of = c, timestamp = clock w\<rparr>,
                  \<lparr>role = r, text_of = c, timestamp = clock w\<rparr>])"
    by simp
  then show ?thesis by (rule exI)
qed

text \<open>
  C10. When the first round of \<^verbatim>\<open>chat\<close> gets a completion with a text and no tool call,
  \<^verbatim>\<open>chat\<close> returns the text through \<^verbatim>\<open>stripMarkdown\<close> and appends it to the history of
  the user twice, once at line 827 and once at line 886: the history ends with two equal
  assistant turns.
\<close>

theorem plain_answer_pushed_twice:
  assumes "groqChat env
             (ChatMsg ''system'' (SYSTEM_PROMPT env)
              # map as_message (getHistory u (conversations (chat_start env rnd u m w))))
             True
             ((chat_start env rnd u m w)
                \<lparr>trace := trace (chat_start env rnd u m w) @ [LogIteration 1]\<rparr>)
           = (Inr c, w1)"
    and "tool_calls c = []" and "content c = Some t" and "t \<noteq> []"
  shows "chat env strip rnd u m w =
           (Inr (strip t), push u ''assistant'' t (push u ''assistant'' t w1)) \<and>
         (\<exists>h. conversations (snd (chat env strip rnd u m w)) u =
                 Some (h @ [\<lparr>role = ''assistant'', text_of = t, timestamp = clock w1\<rparr>,
                            \<lparr>role = ''assistant'', text_of = t, timestamp = clock w1\<rparr>]))"
proof -
  have loop: "chat_loop env strip u
             (ChatMsg ''system'' (SYSTEM_PROMPT env)
              # map as_message (getHistory u (conversations (chat_start env rnd u m w))))
             1 (chat_start env rnd u m w) = (Break t, push u ''assistant'' t w1)"
    using assms by (subst chat_loop.simps) (simp add: MAX_ITERATIONS_def)
  have c: "chat env strip rnd u m w =
           (Inr (strip t), push u ''assistant'' t (push u ''assistant'' t w1))"
    using loop assms(4) by (simp add: chat_def Let_def)
  from push_twice [of u "''assistant''" t w1] c show ?thesis by simp
qed

theorem plain_answer_pushed_twice_witness:
  "fst (groqChat env_hello
          (ChatMsg ''system'' (SYSTEM_PROMPT env_hello)
           # map as_message (getHistory 7 (conversations (chat_start env_hello (1 / 2) 7 ''hi'' world0))))
          True
          ((chat_start env_hello (1 / 2) 7 ''hi'' world0)
             \<lparr>trace := trace (chat_start env_hello (1 / 2) 7 ''hi'' world0) @ [LogIteration 1]\<rparr>))
     = Inr \<lparr>content = Some ''Hello'', tool_calls = []\<rparr> \<and>
   fst (chat env_hello id (1 / 2) 7 ''hi'' world0) = Inr ''Hello'' \<and>
   conversations (snd (chat env_hello id (1 / 2) 7 ''hi'' world0)) 7 =
     Some [\<lparr>role = ''user'', text_of = ''hi'', timestamp = 1000000\<rparr>,
           \<lparr>role = ''assistant'', text_of = ''Hello'', timestamp = 1000000\<rparr>,
           \<lparr>role = ''assistant'', text_of = ''Hello'', timestamp = 1000000\<rparr>]"
proof -
  define g where "g = groqChat env_hello
          (ChatMsg ''system'' (SYSTEM_PROMPT env_hello)
           # map as_message (getHistory 7 (conversations (chat_start env_hello (1 / 2) 7 ''hi'' world0))))
          True
          ((chat_start env_hello (1 / 2) 7 ''hi'' world0)
             \<lparr>trace := trace (chat_start env_hello (1 / 2) 7 ''hi'' world0) @ [LogIteration 1]\<rparr>)"
  have r: "fst g = Inr \<lparr>content = Some ''Hello'', tool_calls = []\<rparr>"
    and h: "conversations (snd g) 7 = Some [\<lparr>role = ''user'', text_of = ''hi'', timestamp = 1000000\<rparr>]"
    and k: "clock (snd g) = 1000000"
    by (simp_all add: g_def chat_start_def groqChat_def groqChat_from.simps pick_def
          pick_scan.simps getAll_def entry_def setAll_def listMemories_def as_message_def
          env_hello_def world_steps example_defs config_defs Let_def)
  have eq: "g = (Inr \<lparr>content = Some ''Hello'', tool_calls = []\<rparr>, snd g)"
    using r by (simp add: prod_eq_iff)
  from plain_answer_pushed_twice [OF eq [unfolded g_def], of "''Hello''" id]
  have c: "chat env_hello id (1 / 2) 7 ''hi'' world0 =
           (Inr ''Hello'', push 7 ''assistant'' ''Hello'' (push 7 ''assistant'' ''Hello'' (snd g)))"
    by (simp add: g_def)
  have "conversations (push 7 ''assistant'' ''Hello'' (push 7 ''assistant'' ''Hello'' (snd g))) 7 =
     Some [\<lparr>role = ''user'', text_of = ''hi'', timestamp = 1000000\<rparr>,
           \<lparr>role = ''assistant'', text_of = ''Hello'', timestamp = 1000000\<rparr>,
           \<lparr>role = ''assistant'', text_of = ''Hello'', timestamp = 1000000\<rparr>]"
    by (simp add: push_def pushHistory_def getHistory_def h k MAX_HISTORY_def)
  with c r show ?thesis by (simp add: g_def)
qed

section \<open>The request queue\<close>

lemma set_status_frame:
  "length (tasks (set_status i st q)) = length (tasks q)"
  "chains (set_status i st q) = chains q"
  "k < length (tasks q) \<Longrightarrow> t_uid (tasks (set_status i st q) ! k) = t_uid (tasks q ! k)"
  "k < length (tasks q) \<Longrightarrow> t_prev (tasks (set_status i st q) ! k) = t_prev (tasks q ! k)"
  "k < length (tasks q) \<Longrightarrow>
     t_status (tasks (set_status i st q) ! k) = (if k = i then st else t_status (tasks q ! k))"
  by (cases "k = i"; simp add: set_status_def)+

lemma task_of_set_status: "task_of (set_status i st q) u k = task_of q u k"
  by (auto simp: task_of_def set_status_frame)

lemma latest_before_set_status:
  "latest_before (set_status i st q) u n p = latest_before q u n p"
  by (simp add: latest_before_def task_of_set_status split: option.splits)

lemma enqueue_frame:
  "length (tasks (enqueue u q)) = Suc (length (tasks q))"
  "k < length (tasks q) \<Longrightarrow> tasks (enqueue u q) ! k = tasks q ! k"
  "tasks (enqueue u q) ! length (tasks q) = \<lparr>t_uid = u, t_prev = chains q u, t_status = Waiting\<rparr>"
  "chains (enqueue u q) = (chains q)(u \<mapsto> length (tasks q))"
  by (simp_all add: enqueue_def nth_append)

lemma task_of_enqueue:
  "task_of (enqueue u q) u' k =
     (task_of q u' k \<or> (k = length (tasks q) \<and> u' = u))"
  by (auto simp: task_of_def enqueue_frame less_Suc_eq)

lemma latest_before_enqueue:
  "n \<le> length (tasks q) \<Longrightarrow> latest_before (enqueue u q) u' n p = latest_before q u' n p"
  by (auto simp: latest_before_def task_of_enqueue split: option.splits)

lemma chained_empty: "chained empty_queue"
  by (simp add: chained_def empty_queue_def latest_before_def task_of_def)

lemma chained_enqueue:
  assumes "chained q"
  shows "chained (enqueue u q)"
proof -
  let ?n = "length (tasks q)"
  let ?q = "enqueue u q"
  from assms have a: "\<forall>i<?n. latest_before q (t_uid (tasks q ! i)) i (t_prev (tasks q ! i))"
    and b: "\<forall>u'. latest_before q u' ?n (chains q u')"
    and c: "\<forall>i j. i < j \<and> j < ?n \<and> t_uid (tasks q ! i) = t_uid (tasks q ! j) \<and>
             started q j \<longrightarrow> settled q i"
    by (simp_all add: chained_def)
  have a': "\<forall>i<length (tasks ?q). latest_before ?q (t_uid (tasks ?q ! i)) i (t_prev (tasks ?q ! i))"
  proof (intro allI impI)
    fix i assume "i < length (tasks ?q)"
    then have "i < ?n \<or> i = ?n" by (auto simp: enqueue_frame)
    then show "latest_before ?q (t_uid (tasks ?q ! i)) i (t_prev (tasks ?q ! i))"
    proof
      assume "i < ?n"
      then show ?thesis using a by (simp add: enqueue_frame latest_before_enqueue)
    next
      assume "i = ?n"
      then show ?thesis using b by (simp add: enqueue_frame latest_before_enqueue)
    qed
  qed
  have b': "\<forall>u'. latest_before ?q u' (length (tasks ?q)) (chains ?q u')"
  proof
    fix u'
    show "latest_before ?q u' (length (tasks ?q)) (chains ?q u')"
    proof (cases "u' = u")
      case True
      then show ?thesis
        by (auto simp: latest_before_def enqueue_frame task_of_enqueue)
    next
      case False
      have "\<not> task_of q u' (length (tasks q))" by (simp add: task_of_def)
      with False b [rule_format, of u'] show ?thesis
        by (auto simp: latest_before_def enqueue_frame task_of_enqueue less_Suc_eq
                 split: option.splits)
    qed
  qed
  have c': "\<forall>i j. i < j \<and> j < length (tasks ?q) \<and> t_uid (tasks ?q ! i) = t_uid (tasks ?q ! j) \<and>
             started ?q j \<longrightarrow> settled ?q i"
  proof (intro allI impI)
    fix i j
    assume h: "i < j \<and> j < length (tasks ?q) \<and> t_uid (tasks ?q ! i) = t_uid (tasks ?q ! j) \<and>
             started ?q j"
    then have "j \<noteq> ?n" by (auto simp: started_def enqueue_frame)
    with h have j: "j < ?n" by (simp add: enqueue_frame)
    from h j have i: "i < ?n" by simp
    with h j have "started q j" "t_uid (tasks q ! i) = t_uid (tasks q ! j)"
      by (simp_all add: started_def enqueue_frame)
    with c h j have "settled q i" by blast
    then show "settled ?q i" using i by (simp add: settled_def enqueue_frame)
  qed
  from a' b' c' show ?thesis by (simp add: chained_def)
qed


lemma chained_start:
  assumes "chained q" and "i < length (tasks q)" and "t_status (tasks q ! i) = Waiting"
    and "prev_settled q i"
  shows "chained (set_status i Running q)"
proof -
  let ?n = "length (tasks q)"
  let ?q = "set_status i Running q"
  from assms(1) have a: "\<forall>i<?n. latest_before q (t_uid (tasks q ! i)) i (t_prev (tasks q ! i))"
    and b: "\<forall>u'. latest_before q u' ?n (chains q u')"
    and c: "\<forall>i j. i < j \<and> j < ?n \<and> t_uid (tasks q ! i) = t_uid (tasks q ! j) \<and>
             started q j \<longrightarrow> settled q i"
    by (simp_all add: chained_def)
  have earlier: "\<forall>k<i. t_uid (tasks q ! k) = t_uid (tasks q ! i) \<longrightarrow> settled q k"
  proof (intro allI impI)
    fix k assume k: "k < i" and same: "t_uid (tasks q ! k) = t_uid (tasks q ! i)"
    have tk: "task_of q (t_uid (tasks q ! i)) k"
      using k same assms(2) by (simp add: task_of_def)
    from a assms(2) have lb: "latest_before q (t_uid (tasks q ! i)) i (t_prev (tasks q ! i))"
      by blast
    show "settled q k"
    proof (cases "t_prev (tasks q ! i)")
      case None
      with lb k tk show ?thesis by (simp add: latest_before_def)
    next
      case (Some p)
      with lb have p: "p < i" "task_of q (t_uid (tasks q ! i)) p"
        "\<forall>k'. p < k' \<and> k' < i \<longrightarrow> \<not> task_of q (t_uid (tasks q ! i)) k'"
        by (simp_all add: latest_before_def)
      from Some assms(4) have sp: "settled q p" by (simp add: prev_settled_def)
      from p(3) k tk have "k \<le> p" by (meson not_le_imp_less)
      show ?thesis
      proof (cases "k = p")
        case True
        with sp show ?thesis by simp
      next
        case False
        with \<open>k \<le> p\<close> have "k < p" by simp
        moreover have "started q p" using sp by (auto simp: settled_def started_def)
        moreover have "t_uid (tasks q ! k) = t_uid (tasks q ! p)"
          using same p(2) by (simp add: task_of_def)
        moreover have "p < ?n" using p(1) assms(2) by simp
        ultimately show ?thesis using c by blast
      qed
    qed
  qed
  have c': "\<forall>k j. k < j \<and> j < length (tasks ?q) \<and> t_uid (tasks ?q ! k) = t_uid (tasks ?q ! j) \<and>
             started ?q j \<longrightarrow> settled ?q k"
  proof (intro allI impI)
    fix k j
    assume h: "k < j \<and> j < length (tasks ?q) \<and> t_uid (tasks ?q ! k) = t_uid (tasks ?q ! j) \<and>
             started ?q j"
    then have j: "j < ?n" and kj: "k < j"
      by (simp_all add: set_status_frame)
    then have k: "k < ?n" by simp
    from h j k have same: "t_uid (tasks q ! k) = t_uid (tasks q ! j)"
      by (simp add: set_status_frame)
    have "settled q k"
    proof (cases "j = i")
      case True
      with earlier kj same show ?thesis by simp
    next
      case False
      with h j have "started q j" by (simp add: started_def set_status_frame)
      with c kj j same show ?thesis by blast
    qed
    then have "k \<noteq> i" using assms(3) by (auto simp: settled_def)
    with \<open>settled q k\<close> k show "settled ?q k" by (simp add: settled_def set_status_frame)
  qed
  show ?thesis
    using a b c'
    by (simp add: chained_def set_status_frame latest_before_set_status)
qed

lemma chained_settle:
  assumes "chained q" and "i < length (tasks q)" and "t_status (tasks q ! i) = Running"
  shows "chained (set_status i (Settled out) q)"
proof -
  let ?n = "length (tasks q)"
  let ?q = "set_status i (Settled out) q"
  from assms(1) have a: "\<forall>i<?n. latest_before q (t_uid (tasks q ! i)) i (t_prev (tasks q ! i))"
    and b: "\<forall>u'. latest_before q u' ?n (chains q u')"
    and c: "\<forall>i j. i < j \<and> j < ?n \<and> t_uid (tasks q ! i) = t_uid (tasks q ! j) \<and>
             started q j \<longrightarrow> settled q i"
    by (simp_all add: chained_def)
  have c': "\<forall>k j. k < j \<and> j < length (tasks ?q) \<and> t_uid (tasks ?q ! k) = t_uid (tasks ?q ! j) \<and>
             started ?q j \<longrightarrow> settled ?q k"
  proof (intro allI impI)
    fix k j
    assume h: "k < j \<and> j < length (tasks ?q) \<and> t_uid (tasks ?q ! k) = t_uid (tasks ?q ! j) \<and>
             started ?q j"
    then have j: "j < ?n" and kj: "k < j"
      by (simp_all add: set_status_frame)
    then have k: "k < ?n" by simp
    from h j k have same: "t_uid (tasks q ! k) = t_uid (tasks q ! j)"
      by (simp add: set_status_frame)
    have "started q j"
      using h j assms(3) by (cases "j = i") (simp_all add: started_def set_status_frame)
    with c kj j same have "settled q k" by blast
    with k show "settled ?q k" by (simp add: settled_def set_status_frame)
  qed
  show ?thesis
    using a b c'
    by (simp add: chained_def set_status_frame latest_before_set_status)
qed

lemma chained_step: "chained q \<Longrightarrow> queue_step q ev = Some q' \<Longrightarrow> chained q'"
  by (cases ev) (auto simp: chained_enqueue chained_start chained_settle split: if_splits)

lemma chained_run: "chained q \<Longrightarrow> queue_run q evs = Some q' \<Longrightarrow> chained q'"
proof (induction evs arbitrary: q)
  case Nil
  then show ?case by simp
next
  case (Cons ev evs)
  then show ?case by (auto split: option.splits dest: chained_step)
qed

lemma chained_reachable: "queue_run empty_queue evs = Some q \<Longrightarrow> chained q"
  using chained_run [OF chained_empty] by blast

lemma can_start:
  assumes "chained q" and "j < length (tasks q)" and "t_status (tasks q ! j) = Waiting"
    and "\<forall>i<j. t_uid (tasks q ! i) = t_uid (tasks q ! j) \<longrightarrow> settled q i"
  shows "queue_step q (Start j) = Some (set_status j Running q)"
proof -
  from assms(1,2) have lb: "latest_before q (t_uid (tasks q ! j)) j (t_prev (tasks q ! j))"
    by (simp add: chained_def)
  have "prev_settled q j"
  proof (cases "t_prev (tasks q ! j)")
    case None
    then show ?thesis by (simp add: prev_settled_def)
  next
    case (Some p)
    with lb have "p < j" "t_uid (tasks q ! p) = t_uid (tasks q ! j)"
      by (simp_all add: latest_before_def task_of_def)
    with assms(4) Some show ?thesis by (simp add: prev_settled_def)
  qed
  with assms(2,3) show ?thesis by simp
qed


lemma running_exclusive:
  assumes order: "\<forall>i j. i < j \<and> j < length (tasks q) \<and>
                t_uid (tasks q ! i) = t_uid (tasks q ! j) \<and> started q j \<longrightarrow> settled q i"
    and "a < b" and "t_uid (tasks q ! a) = t_uid (tasks q ! b)"
    and "running q a" and "running q b"
  shows False
proof -
  from \<open>running q b\<close> have "b < length (tasks q)" "started q b"
    by (simp_all add: running_def started_def)
  with assms(2,3) order have "settled q a" by blast
  with \<open>running q a\<close> show False by (simp add: settled_def running_def)
qed

lemma rejected_unblocks:
  assumes s: "queue_step q (Settle i (Rejected e)) = Some q'"
  shows "t_status (tasks q' ! i) = Settled (Rejected e) \<and>
         (\<forall>j. j < length (tasks q) \<and> t_status (tasks q ! j) = Waiting \<and>
               t_prev (tasks q ! j) = Some i \<longrightarrow>
               queue_step q' (Start j) = Some (set_status j Running q'))"
proof -
  from s have i: "i < length (tasks q)" and r: "t_status (tasks q ! i) = Running"
    and q': "q' = set_status i (Settled (Rejected e)) q"
    by (simp_all split: if_splits)
  have st: "t_status (tasks q' ! i) = Settled (Rejected e)"
    using i by (simp add: q' set_status_frame)
  have "\<forall>j. j < length (tasks q) \<and> t_status (tasks q ! j) = Waiting \<and>
                   t_prev (tasks q ! j) = Some i \<longrightarrow>
                   queue_step q' (Start j) = Some (set_status j Running q')"
  proof (intro allI impI)
    fix j
    assume j: "j < length (tasks q) \<and> t_status (tasks q ! j) = Waiting \<and>
                   t_prev (tasks q ! j) = Some i"
    then have ne: "j \<noteq> i" using r by auto
    have jl: "j < length (tasks q')" using j by (simp add: q' set_status_frame)
    have w: "t_status (tasks q' ! j) = Waiting"
      using j ne by (simp add: q' set_status_frame)
    have p: "t_prev (tasks q' ! j) = Some i"
      using j by (simp add: q' set_status_frame)
    have "settled q' i" using st i by (simp add: settled_def q' set_status_frame)
    with p have "prev_settled q' j" by (simp add: prev_settled_def)
    with jl w show "queue_step q' (Start j) = Some (set_status j Running q')"
      by simp
  qed
  with st show ?thesis by simp
qed


text \<open>
  C4. In every state that calls of \<^verbatim>\<open>enqueue\<close>, starts of tasks and settlements of their
  promises can lead to, in any interleaving: a task has been started only when every
  task queued earlier for the same user has settled, so the tasks of a user start in the
  order of submission; two tasks of the same user are never running at once; a waiting
  task can start as soon as the earlier tasks of its user have settled, fulfilled or
  rejected; and when the promise of a task is rejected, the promise that \<^verbatim>\<open>enqueue\<close>
  returned to its caller is rejected with the same error and the task queued behind it
  can start.
\<close>

theorem queue_serializes:
  assumes "queue_run empty_queue evs = Some q"
  shows "(\<forall>i j. i < j \<and> j < length (tasks q) \<and> t_uid (tasks q ! i) = t_uid (tasks q ! j) \<and>
                started q j \<longrightarrow> settled q i) \<and>
         (\<forall>i j. i \<noteq> j \<and> t_uid (tasks q ! i) = t_uid (tasks q ! j) \<longrightarrow>
                \<not> (running q i \<and> running q j)) \<and>
         (\<forall>j. j < length (tasks q) \<and> t_status (tasks q ! j) = Waiting \<and>
              (\<forall>i<j. t_uid (tasks q ! i) = t_uid (tasks q ! j) \<longrightarrow> settled q i) \<longrightarrow>
              queue_step q (Start j) = Some (set_status j Running q)) \<and>
         (\<forall>i e q'. queue_step q (Settle i (Rejected e)) = Some q' \<longrightarrow>
              t_status (tasks q' ! i) = Settled (Rejected e) \<and>
              (\<forall>j. j < length (tasks q) \<and> t_status (tasks q ! j) = Waiting \<and>
                   t_prev (tasks q ! j) = Some i \<longrightarrow>
                   queue_step q' (Start j) = Some (set_status j Running q')))"
proof (intro conjI)
  from assms have ch: "chained q" by (rule chained_reachable)
  then show order: "\<forall>i j. i < j \<and> j < length (tasks q) \<and>
                t_uid (tasks q ! i) = t_uid (tasks q ! j) \<and> started q j \<longrightarrow> settled q i"
    by (simp add: chained_def)
  show "\<forall>i j. i \<noteq> j \<and> t_uid (tasks q ! i) = t_uid (tasks q ! j) \<longrightarrow>
                \<not> (running q i \<and> running q j)"
  proof (intro allI impI notI)
    fix i j
    assume h: "i \<noteq> j \<and> t_uid (tasks q ! i) = t_uid (tasks q ! j)"
      and r: "running q i \<and> running q j"
    from h have "i < j \<or> j < i" by arith
    then show False
    proof
      assume "i < j"
      with h r show False using running_exclusive [OF order, of i j] by simp
    next
      assume "j < i"
      with h r show False using running_exclusive [OF order, of j i] by simp
    qed
  qed
  show "\<forall>j. j < length (tasks q) \<and> t_status (tasks q ! j) = Waiting \<and>
              (\<forall>i<j. t_uid (tasks q ! i) = t_uid (tasks q ! j) \<longrightarrow> settled q i) \<longrightarrow>
              queue_step q (Start j) = Some (set_status j Running q)"
  proof (intro allI impI)
    fix j
    assume "j < length (tasks q) \<and> t_status (tasks q ! j) = Waiting \<and>
              (\<forall>i<j. t_uid (tasks q ! i) = t_uid (tasks q ! j) \<longrightarrow> settled q i)"
    then have a: "j < length (tasks q)" and b: "t_status (tasks q ! j) = Waiting"
      and c: "\<forall>i<j. t_uid (tasks q ! i) = t_uid (tasks q ! j) \<longrightarrow> settled q i"
      by simp_all
    from ch a b c show "queue_step q (Start j) = Some (set_status j Running q)"
      by (rule can_start)
  qed
  show "\<forall>i e q'. queue_step q (Settle i (Rejected e)) = Some q' \<longrightarrow>
              t_status (tasks q' ! i) = Settled (Rejected e) \<and>
              (\<forall>j. j < length (tasks q) \<and> t_status (tasks q ! j) = Waiting \<and>
                   t_prev (tasks q ! j) = Some i \<longrightarrow>
                   queue_step q' (Start j) = Some (set_status j Running q'))"
    by (intro allI impI) (rule rejected_unblocks)
qed

lemmas queue_eval =
  empty_queue_def enqueue_def set_status_def prev_settled_def settled_def started_def
  running_def

lemma example_tasks:
  "tasks (the (queue_run empty_queue example_events)) =
   [\<lparr>t_uid = 7, t_prev = None,
      t_status = Settled (Rejected (JsError None ''Service temporarily unavailable''))\<rparr>,
    \<lparr>t_uid = 7, t_prev = Some 0, t_status = Running\<rparr>,
    \<lparr>t_uid = 8, t_prev = None, t_status = Running\<rparr>]"
  by (simp add: example_events_def queue_eval)

lemma example_runs: "queue_run empty_queue example_events \<noteq> None"
  by (simp add: example_events_def queue_eval)

theorem queue_serializes_witness:
  "queue_run empty_queue example_events \<noteq> None \<and>
   started (the (queue_run empty_queue example_events)) 1 \<and>
   settled (the (queue_run empty_queue example_events)) 0 \<and>
   running (the (queue_run empty_queue example_events)) 1 \<and>
   running (the (queue_run empty_queue example_events)) 2 \<and>
   t_status (tasks (the (queue_run empty_queue example_events)) ! 0) =
     Settled (Rejected (JsError None ''Service temporarily unavailable'')) \<and>
   queue_run empty_queue [Enqueue 7, Enqueue 7, Start 0, Start 1] = None"
proof -
  define q where "q = the (queue_run empty_queue example_events)"
  have run: "queue_run empty_queue example_events = Some q"
    using example_runs by (auto simp: q_def)
  have t: "tasks q =
   [\<lparr>t_uid = 7, t_prev = None,
      t_status = Settled (Rejected (JsError None ''Service temporarily unavailable''))\<rparr>,
    \<lparr>t_uid = 7, t_prev = Some 0, t_status = Running\<rparr>,
    \<lparr>t_uid = 8, t_prev = None, t_status = Running\<rparr>]"
    by (simp add: q_def example_tasks)
  have s1: "started q 1" and r1: "running q 1" and r2: "running q 2"
    by (simp_all add: started_def running_def t)
  have pre: "(0::nat) < 1 \<and> 1 < length (tasks q) \<and> t_uid (tasks q ! 0) = t_uid (tasks q ! 1) \<and>
             started q 1"
    using s1 by (simp add: t)
  from queue_serializes [OF run] have
    "\<forall>i j. i < j \<and> j < length (tasks q) \<and> t_uid (tasks q ! i) = t_uid (tasks q ! j) \<and>
                started q j \<longrightarrow> settled q i"
    by (rule conjunct1)
  from this [rule_format, of 0 1] pre have s0: "settled q 0" by simp
  have last: "queue_run empty_queue [Enqueue 7, Enqueue 7, Start 0, Start 1] = None"
    by (simp add: queue_eval)
  have st: "t_status (tasks q ! 0) =
     Settled (Rejected (JsError None ''Service temporarily unavailable''))"
    by (simp add: t)
  show ?thesis
    unfolding q_def [symmetric]
    using example_runs s1 s0 r1 r2 st last by (intro conjI)
qed

end
